theory Spec2Isabelle
  imports Complex_Main
begin

section \<open>Recurrent-memory segment processing (modeling\_rmt.py)\<close>

text \<open>
  A shallow embedding of \<^verbatim>\<open>RMTEncoderForSequenceClassification\<close>: the segmenter
  \<^verbatim>\<open>pad_and_segment\<close> and the per-segment loop of \<^verbatim>\<open>__call__\<close>.
  Token ids are Python integers (\<open>int\<close>), a 1-D tensor is a list, a 2-D tensor is a list
  of rows, and every exception the code can raise is a value of \<open>py_error\<close>.
\<close>

subsection \<open>Errors and Python/torch primitives\<close>

datatype py_error = ZeroDivisionError | RuntimeError | KeyError | IndexError | TypeError

text \<open>\<^verbatim>\<open>math.ceil(a / b)\<close> on integers (exact below \<open>2^53\<close>); \<open>b = 0\<close> raises.\<close>

definition ceil_div :: "int \<Rightarrow> int \<Rightarrow> py_error + int" where
  "ceil_div a b = (if b = 0 then Inl ZeroDivisionError else Inr (- ((- a) div b)))"

text \<open>The length of \<^verbatim>\<open>range(start, stop, step)\<close> for \<open>step \<noteq> 0\<close>, as CPython computes it.\<close>

definition range_len :: "int \<Rightarrow> int \<Rightarrow> int \<Rightarrow> nat" where
  "range_len start stop step =
     (if 0 < step \<and> start < stop then nat ((stop - start - 1) div step + 1)
      else if step < 0 \<and> stop < start then nat ((start - stop - 1) div (- step) + 1)
      else 0)"

definition py_range :: "int \<Rightarrow> int \<Rightarrow> int \<Rightarrow> int list" where
  "py_range start stop step =
     map (\<lambda>i. start + step * int i) [0 ..< range_len start stop step]"

text \<open>A slice bound of \<^verbatim>\<open>xs[s:e]\<close>: negative bounds count from the end, then clamp.\<close>

definition slice_bound :: "nat \<Rightarrow> int \<Rightarrow> nat" where
  "slice_bound n i = (if i < 0 then nat (max 0 (int n + i)) else min n (nat i))"

definition py_slice :: "'a list \<Rightarrow> int \<Rightarrow> int \<Rightarrow> 'a list" where
  "py_slice xs s e =
     (let lo = slice_bound (length xs) s; hi = slice_bound (length xs) e
      in take (hi - lo) (drop lo xs))"

text \<open>Boolean-mask indexing \<^verbatim>\<open>t[mask]\<close> along the first axis; a mask of another
  length is an \<^verbatim>\<open>IndexError\<close>.\<close>

definition mask_select :: "'a list \<Rightarrow> bool list \<Rightarrow> py_error + 'a list" where
  "mask_select xs msk =
     (if length msk = length xs then Inr (map fst (filter snd (zip xs msk)))
      else Inl IndexError)"

text \<open>\<^verbatim>\<open>torch.cat\<close> of 1-D tensors and \<^verbatim>\<open>torch.stack\<close> of rows; both refuse an
  empty list, and \<^verbatim>\<open>stack\<close> refuses rows of different lengths.\<close>

definition torch_cat :: "'a list list \<Rightarrow> py_error + 'a list" where
  "torch_cat ts = (if ts = [] then Inl RuntimeError else Inr (concat ts))"

definition torch_stack :: "'a list list \<Rightarrow> py_error + 'a list list" where
  "torch_stack ts =
     (case ts of [] \<Rightarrow> Inl RuntimeError
      | t # _ \<Rightarrow> if \<forall>r \<in> set ts. length r = length t then Inr ts else Inl RuntimeError)"

text \<open>\<^verbatim>\<open>Tensor.split(sz, dim=1)\<close> on a tensor whose remaining width is \<open>w\<close>.\<close>

function split_cols :: "nat \<Rightarrow> nat \<Rightarrow> 'a list list \<Rightarrow> 'a list list list" where
  "split_cols sz w t =
     (if sz = 0 \<or> w = 0 then []
      else map (take sz) t # split_cols sz (w - sz) (map (drop sz) t))"
  by pat_completeness auto
termination
  by (relation "measure (\<lambda>(sz, w, t). w)") auto

declare split_cols.simps [simp del]

text \<open>\<^verbatim>\<open>torch.chunk(t, n, dim=1)\<close> on a stacked (non-empty) tensor: \<open>n \<le> 0\<close> raises,
  the chunk width is \<open>ceil(width / n)\<close>, and a tensor of width 0 gives \<open>n\<close> empty chunks.\<close>

definition torch_chunk :: "'a list list \<Rightarrow> int \<Rightarrow> py_error + 'a list list list" where
  "torch_chunk t n =
     (if n \<le> 0 then Inl RuntimeError
      else let w = length (hd t); sz = (w + nat n - 1) div nat n
           in if sz = 0 then Inr (replicate (nat n) (map (\<lambda>r. []) t))
              else Inr (split_cols sz w t))"

subsection \<open>Configuration (\<^verbatim>\<open>set_params\<close>, \<^verbatim>\<open>extend_word_embeddings\<close>)\<close>

text \<open>\<open>vocab_size\<close> is the row count of the backbone's embedding table before it is
  extended; the reserved memory-slot ids are the \<open>num_mem_tokens\<close> ids after it.\<close>

record rmt_config =
  drop_empty_segments :: bool
  sum_loss :: bool
  input_size :: int
  input_seg_size :: "int option"
  num_mem_tokens :: nat
  bptt_depth :: int
  pad_token_id :: int
  cls_token_id :: int
  sep_token_id :: int
  vocab_size :: nat

definition mem_token_ids :: "rmt_config \<Rightarrow> int list" where
  "mem_token_ids cfg =
     map int [vocab_size cfg ..< vocab_size cfg + num_mem_tokens cfg]"

subsection \<open>The segmenter (\<^verbatim>\<open>pad_and_segment\<close>)\<close>

text \<open>The local \<^verbatim>\<open>input_seg_size\<close>: the content capacity of one segment.\<close>

definition seg_capacity :: "rmt_config \<Rightarrow> int" where
  "seg_capacity cfg =
     (let k = input_size cfg - int (num_mem_tokens cfg) - 3
      in case input_seg_size cfg of
           None \<Rightarrow> k
         | Some s \<Rightarrow> if s < k then s else k)"

text \<open>\<^verbatim>\<open>input[input != self.pad_token_id][1:-1]\<close>.\<close>

definition strip_row :: "rmt_config \<Rightarrow> int list \<Rightarrow> int list" where
  "strip_row cfg row =
     (case mask_select row (map (\<lambda>x. x \<noteq> pad_token_id cfg) row) of
        Inl _ \<Rightarrow> []
      | Inr kept \<Rightarrow> py_slice kept 1 (- 1))"

definition seg_sep_inds :: "int \<Rightarrow> int list \<Rightarrow> int list" where
  "seg_sep_inds k content = 0 # rev (py_range (int (length content)) 0 (- k))"

definition input_segments :: "int \<Rightarrow> int list \<Rightarrow> int list list" where
  "input_segments k content =
     (let inds = seg_sep_inds k content
      in map (\<lambda>(s, e). py_slice content s e) (zip inds (tl inds)))"

text \<open>\<^verbatim>\<open>F.pad(tensor, (0, pad_size))\<close> pads with the constant 0.\<close>

definition pad_add_special_tokens :: "rmt_config \<Rightarrow> int list \<Rightarrow> int \<Rightarrow> int list" where
  "pad_add_special_tokens cfg tensor seg_size =
     (let t = [cls_token_id cfg] @ mem_token_ids cfg @ [sep_token_id cfg] @ tensor
              @ [sep_token_id cfg];
          pad_size = seg_size - int (length t)
      in if 0 < pad_size then t @ replicate (nat pad_size) 0 else t)"

definition empty_segment :: "rmt_config \<Rightarrow> int list" where
  "empty_segment cfg = pad_add_special_tokens cfg [] (input_size cfg)"

text \<open>The body of the loop over the rows of the batch, before \<^verbatim>\<open>torch.cat\<close>.\<close>

definition row_segments :: "rmt_config \<Rightarrow> int \<Rightarrow> int list \<Rightarrow> int list list" where
  "row_segments cfg n_segments row =
     (let segs = map (\<lambda>t. pad_add_special_tokens cfg t (input_size cfg))
                   (input_segments (seg_capacity cfg) (strip_row cfg row));
          empty_segments = replicate (nat (n_segments - int (length segs))) (empty_segment cfg)
      in empty_segments @ segs)"

fun augment_rows :: "rmt_config \<Rightarrow> int \<Rightarrow> int list list \<Rightarrow> py_error + int list list" where
  "augment_rows cfg n [] = Inr []"
| "augment_rows cfg n (row # rest) =
     (case torch_cat (row_segments cfg n row) of
        Inl e \<Rightarrow> Inl e
      | Inr a \<Rightarrow> (case augment_rows cfg n rest of
                    Inl e \<Rightarrow> Inl e
                  | Inr as \<Rightarrow> Inr (a # as)))"

text \<open>A batch of token ids: a 2-D tensor of shape \<open>(length rows, seq_len)\<close>.\<close>

record batch =
  seq_len :: nat
  rows :: "int list list"

definition wf_batch :: "batch \<Rightarrow> bool" where
  "wf_batch b = (\<forall>r \<in> set (rows b). length r = seq_len b)"

record segmented =
  seg_input_ids :: "int list list list"
  seg_attention_mask :: "int list list list"
  seg_token_type_ids :: "int list list list"

definition n_segments_of :: "rmt_config \<Rightarrow> batch \<Rightarrow> py_error + int" where
  "n_segments_of cfg b = ceil_div (int (seq_len b)) (seg_capacity cfg)"

definition pad_and_segment :: "rmt_config \<Rightarrow> batch \<Rightarrow> py_error + segmented" where
  "pad_and_segment cfg b =
     (case n_segments_of cfg b of
        Inl e \<Rightarrow> Inl e
      | Inr n \<Rightarrow>
         (case augment_rows cfg n (rows b) of
            Inl e \<Rightarrow> Inl e
          | Inr augmented \<Rightarrow>
             (case torch_stack augmented of
                Inl e \<Rightarrow> Inl e
              | Inr aug \<Rightarrow>
                 (let am = map (map (\<lambda>x. if x = pad_token_id cfg then 0 else (1::int))) aug;
                      tt = map (map (\<lambda>x. (0::int))) am
                  in case torch_chunk aug n of
                       Inl e \<Rightarrow> Inl e
                     | Inr segs \<Rightarrow>
                        (case torch_chunk am n of
                           Inl e \<Rightarrow> Inl e
                         | Inr ams \<Rightarrow>
                            (case torch_chunk tt n of
                               Inl e \<Rightarrow> Inl e
                             | Inr tts \<Rightarrow>
                                Inr \<lparr>seg_input_ids = segs, seg_attention_mask = ams,
                                     seg_token_type_ids = tts\<rparr>))))))"

subsection \<open>The backbone model (external collaborator)\<close>

text \<open>
  The wrapped model is a parameter: its embedding lookup and its forward pass. An
  embedding or hidden vector is a value of the abstract type \<open>'e\<close>; a loss is a scalar,
  idealised as a real number. Keyword arguments are a dictionary from names to
  per-example tensors. \<open>hidden_last\<close> is \<^verbatim>\<open>hidden_states[-1]\<close>, of shape
  (batch, positions); \<open>loss\<close> is absent when the model computed none, and reading it
  then is a \<^verbatim>\<open>KeyError\<close>.
\<close>

type_synonym kwargs = "string \<rightharpoonup> int list"

record 'e model_input =
  kw :: kwargs
  inputs_embeds :: "'e list list"
  attention_mask :: "int list list"
  token_type_ids :: "int list list"

record 'e model_output =
  loss :: "real option"
  hidden_last :: "'e list list"

record 'e backbone =
  word_embeddings :: "int \<Rightarrow> 'e"
  forward :: "'e model_input \<Rightarrow> 'e model_output"

subsection \<open>Error propagation and tensor assignment\<close>

definition bind_err :: "py_error + 'a \<Rightarrow> ('a \<Rightarrow> py_error + 'b) \<Rightarrow> py_error + 'b" where
  "bind_err m f = (case m of Inl e \<Rightarrow> Inl e | Inr x \<Rightarrow> f x)"

fun sequence_err :: "(py_error + 'a) list \<Rightarrow> py_error + 'a list" where
  "sequence_err [] = Inr []"
| "sequence_err (m # ms) =
     bind_err m (\<lambda>x. bind_err (sequence_err ms) (\<lambda>xs. Inr (x # xs)))"

text \<open>Broadcasting a value along one axis to size \<open>n\<close>: sizes agree, or the value has
  size 1 there; anything else is a shape error.\<close>

definition broadcast_to :: "nat \<Rightarrow> 'a list \<Rightarrow> py_error + 'a list" where
  "broadcast_to n xs =
     (if length xs = n then Inr xs
      else if length xs = 1 then Inr (replicate n (hd xs))
      else Inl RuntimeError)"

text \<open>\<^verbatim>\<open>row[1:1+M] = val\<close> on one example, and
  \<^verbatim>\<open>inputs_embeds[:, 1:1+M] = vals\<close> on the batch.\<close>

definition assign_slice :: "nat \<Rightarrow> 'a list \<Rightarrow> 'a list \<Rightarrow> py_error + 'a list" where
  "assign_slice m row val =
     bind_err (broadcast_to (length (py_slice row 1 (1 + int m))) val)
       (\<lambda>v. Inr (take 1 row @ v @ drop (1 + m) row))"

definition assign_slices :: "nat \<Rightarrow> 'a list list \<Rightarrow> 'a list list \<Rightarrow> py_error + 'a list list" where
  "assign_slices m embeds vals =
     bind_err (broadcast_to (length embeds) vals)
       (\<lambda>vs. sequence_err (map (\<lambda>(row, v). assign_slice m row v) (zip embeds vs)))"

text \<open>Writing \<open>vs\<close>, in order, into the positions of \<open>ms\<close> that the mask selects.\<close>

fun scatter :: "'a list \<Rightarrow> bool list \<Rightarrow> 'a list \<Rightarrow> 'a list" where
  "scatter [] bs vs = []"
| "scatter (m # ms) [] vs = m # ms"
| "scatter (m # ms) (b # bs) vs =
     (if b then (case vs of [] \<Rightarrow> m # scatter ms bs []
                 | v # vs' \<Rightarrow> v # scatter ms bs vs')
      else m # scatter ms bs vs)"

text \<open>\<^verbatim>\<open>memory[mask] = vals\<close>: the value is broadcast to the selected rows.\<close>

definition mask_assign ::
  "'a list list \<Rightarrow> bool list \<Rightarrow> 'a list list \<Rightarrow> py_error + 'a list list" where
  "mask_assign mem msk vals =
     bind_err (mask_select mem msk)
       (\<lambda>sel. bind_err (broadcast_to (length sel) vals)
          (\<lambda>vs. bind_err (sequence_err (map (\<lambda>(t, v). broadcast_to (length t) v) (zip sel vs)))
             (\<lambda>ws. Inr (scatter mem msk ws))))"

subsection \<open>The forward call (\<^verbatim>\<open>__call__\<close>)\<close>

text \<open>Memory is rank 2 (slots) as \<^verbatim>\<open>set_memory\<close> returns it, and rank 3 (batch, slots)
  once the loop has repeated it over the batch.\<close>

datatype 'e mem = Mem2 "'e list" | Mem3 "'e list list"

definition set_memory :: "rmt_config \<Rightarrow> 'e backbone \<Rightarrow> 'e mem" where
  "set_memory cfg bb = Mem2 (map (word_embeddings bb) (mem_token_ids cfg))"

text \<open>
  The state of the loop. \<open>memory\<close> and \<open>outputs\<close> are the variables of the source;
  \<open>detach_log\<close> records, for every segment index the loop reaches, whether
  \<^verbatim>\<open>memory.detach()\<close> ran there, and \<open>forward_log\<close> the inputs of every call of the
  model's forward pass.
\<close>

record 'e loop_state =
  memory :: "'e mem"
  outputs :: "'e model_output list"
  detach_log :: "bool list"
  forward_log :: "'e model_input list"

definition init_state :: "rmt_config \<Rightarrow> 'e backbone \<Rightarrow> 'e loop_state" where
  "init_state cfg bb =
     \<lparr>memory = set_memory cfg bb, outputs = [], detach_log = [], forward_log = []\<rparr>"

text \<open>\<^verbatim>\<open>segmented\<close> is the tuple (input\_segments, attention\_mask, token\_type\_ids) that
  \<^verbatim>\<open>pad_and_segment\<close> returns, so \<^verbatim>\<open>len(segmented)\<close> is the arity of that tuple.\<close>

definition len_segmented :: "segmented \<Rightarrow> int" where
  "len_segmented sg = 3"

definition zip_segmented :: "segmented \<Rightarrow> (int list list \<times> int list list \<times> int list list) list" where
  "zip_segmented sg =
     zip (seg_input_ids sg) (zip (seg_attention_mask sg) (seg_token_type_ids sg))"

definition rank3 :: "nat \<Rightarrow> 'e mem \<Rightarrow> 'e list list" where
  "rank3 b m = (case m of Mem2 slots \<Rightarrow> replicate b slots | Mem3 per_example \<Rightarrow> per_example)"

definition detach_cond :: "rmt_config \<Rightarrow> int \<Rightarrow> int \<Rightarrow> bool" where
  "detach_cond cfg len_seg seg_num =
     (- 1 < bptt_depth cfg \<and> bptt_depth cfg < len_seg - seg_num)"

definition non_empty_mask :: "rmt_config \<Rightarrow> int list list \<Rightarrow> bool list" where
  "non_empty_mask cfg ids = map (\<lambda>r. r \<noteq> empty_segment cfg) ids"

text \<open>Lines 97--102: complete the keyword arguments, call the model, append its output.
  \<^verbatim>\<open>output_hidden_states\<close> given twice is a \<^verbatim>\<open>TypeError\<close>.\<close>

definition call_model ::
  "'e backbone \<Rightarrow> kwargs \<Rightarrow> 'e list list \<Rightarrow> int list list \<Rightarrow> int list list
   \<Rightarrow> py_error + 'e model_input \<times> 'e model_output" where
  "call_model bb seg_kwargs embeds am tt =
     (let inp = \<lparr>kw = seg_kwargs, inputs_embeds = embeds, attention_mask = am,
                 token_type_ids = tt\<rparr>
      in if seg_kwargs ''output_hidden_states'' \<noteq> None then Inl TypeError
         else Inr (inp, forward bb inp))"

definition lookup_labels :: "kwargs \<Rightarrow> py_error + int list" where
  "lookup_labels seg_kwargs =
     (case seg_kwargs ''labels'' of None \<Rightarrow> Inl KeyError | Some l \<Rightarrow> Inr l)"

text \<open>One iteration of the loop over the segments (lines 74--107).\<close>

definition segment_step ::
  "rmt_config \<Rightarrow> 'e backbone \<Rightarrow> kwargs \<Rightarrow> int \<Rightarrow> int
   \<Rightarrow> int list list \<times> int list list \<times> int list list
   \<Rightarrow> 'e loop_state \<Rightarrow> py_error + 'e loop_state" where
  "segment_step cfg bb kwargs len_seg seg_num seg st =
     (case seg of (ids, am, tt) \<Rightarrow>
      let mem = rank3 (length ids) (memory st);
          st1 = st\<lparr>memory := Mem3 mem,
                   detach_log := detach_log st @ [detach_cond cfg len_seg seg_num]\<rparr>;
          m = num_mem_tokens cfg
      in if drop_empty_segments cfg then
           (let msk = non_empty_mask cfg ids
            in if length (filter (\<lambda>b. b) msk) = 0 then Inr st1
               else
                 bind_err (mask_select ids msk) (\<lambda>ids'.
                 bind_err (mask_select am msk) (\<lambda>am'.
                 bind_err (mask_select tt msk) (\<lambda>tt'.
                 bind_err (lookup_labels kwargs) (\<lambda>labels.
                 bind_err (mask_select labels msk) (\<lambda>labels'.
                 bind_err (mask_select mem msk) (\<lambda>mem'.
                 bind_err (assign_slices m (map (map (word_embeddings bb)) ids') mem')
                   (\<lambda>embeds.
                 bind_err (call_model bb (kwargs(''labels'' \<mapsto> labels')) embeds am' tt')
                   (\<lambda>(inp, out).
                 bind_err (mask_assign mem msk (map (take m) (hidden_last out)))
                   (\<lambda>mem_new.
                     Inr (st1\<lparr>memory := Mem3 mem_new,
                              outputs := outputs st1 @ [out],
                              forward_log := forward_log st1 @ [inp]\<rparr>)))))))))))
         else
           bind_err (assign_slices m (map (map (word_embeddings bb)) ids) mem) (\<lambda>embeds.
           bind_err (call_model bb kwargs embeds am tt) (\<lambda>(inp, out).
             Inr (st1\<lparr>memory := Mem3 (map (take m) (hidden_last out)),
                      outputs := outputs st1 @ [out],
                      forward_log := forward_log st1 @ [inp]\<rparr>))))"

fun run_segments ::
  "rmt_config \<Rightarrow> 'e backbone \<Rightarrow> kwargs \<Rightarrow> int \<Rightarrow> int
   \<Rightarrow> (int list list \<times> int list list \<times> int list list) list
   \<Rightarrow> 'e loop_state \<Rightarrow> py_error + 'e loop_state" where
  "run_segments cfg bb kwargs len_seg seg_num [] st = Inr st"
| "run_segments cfg bb kwargs len_seg seg_num (seg # segs) st =
     bind_err (segment_step cfg bb kwargs len_seg seg_num seg st)
       (run_segments cfg bb kwargs len_seg (seg_num + 1) segs)"

text \<open>Lines 69--107: the state when the loop ends.\<close>

definition run_call ::
  "rmt_config \<Rightarrow> 'e backbone \<Rightarrow> kwargs \<Rightarrow> batch \<Rightarrow> py_error + 'e loop_state" where
  "run_call cfg bb kwargs b =
     bind_err (pad_and_segment cfg b) (\<lambda>sg.
       run_segments cfg bb kwargs (len_segmented sg) 0 (zip_segmented sg) (init_state cfg bb))"

text \<open>Lines 109--110. The comprehension reads every loss, \<^verbatim>\<open>torch.stack\<close> refuses an
  empty list, and the sum is stored in \<^verbatim>\<open>out\<close>, the output of the last executed step,
  which is the last element of \<^verbatim>\<open>outputs\<close>.\<close>

definition aggregate_loss :: "'e model_output list \<Rightarrow> py_error + 'e model_output list" where
  "aggregate_loss outs =
     bind_err (sequence_err (map (\<lambda>out. case loss out of None \<Rightarrow> Inl KeyError
                                        | Some l \<Rightarrow> Inr l) outs))
       (\<lambda>ls. if ls = [] then Inl RuntimeError
              else Inr (butlast outs @ [(last outs)\<lparr>loss := Some (sum_list ls)\<rparr>]))"

definition forward_call ::
  "rmt_config \<Rightarrow> 'e backbone \<Rightarrow> kwargs \<Rightarrow> batch \<Rightarrow> py_error + 'e model_output list" where
  "forward_call cfg bb kwargs b =
     bind_err (run_call cfg bb kwargs b) (\<lambda>st.
       if sum_loss cfg then aggregate_loss (outputs st) else Inr (outputs st))"

subsection \<open>Observations used to state the properties\<close>

text \<open>What is left of a segment when the start marker, the memory slots, the two
  separators and the zero padding are removed.\<close>

definition seg_content :: "rmt_config \<Rightarrow> int list \<Rightarrow> int list" where
  "seg_content cfg seg =
     butlast (rev (dropWhile (\<lambda>x. x = 0) (rev (drop (num_mem_tokens cfg + 2) seg))))"

definition segments_produced :: "rmt_config \<Rightarrow> batch \<Rightarrow> py_error + nat" where
  "segments_produced cfg b =
     bind_err (pad_and_segment cfg b) (\<lambda>sg. Inr (length (seg_input_ids sg)))"

definition detach_trace ::
  "rmt_config \<Rightarrow> 'e backbone \<Rightarrow> kwargs \<Rightarrow> batch \<Rightarrow> py_error + bool list" where
  "detach_trace cfg bb kwargs b =
     bind_err (run_call cfg bb kwargs b) (\<lambda>st. Inr (detach_log st))"

definition loss_fields :: "py_error + 'e model_output list \<Rightarrow> py_error + real option list" where
  "loss_fields res = bind_err res (\<lambda>outs. Inr (map loss outs))"

text \<open>The position, among the selected examples, of example \<open>j\<close> of the batch.\<close>

definition rank_in :: "bool list \<Rightarrow> nat \<Rightarrow> nat" where
  "rank_in msk j = length (filter (\<lambda>b. b) (take j msk))"






subsection \<open>Concrete configurations and inputs\<close>

text \<open>The scenario of the specification: \<open>input_size = 10\<close>, two memory slots, capacity 5.\<close>

definition scenario_cfg :: rmt_config where
  "scenario_cfg =
     \<lparr>drop_empty_segments = True, sum_loss = False, input_size = 10, input_seg_size = None,
      num_mem_tokens = 2, bptt_depth = - 1, pad_token_id = 0, cls_token_id = 101,
      sep_token_id = 102, vocab_size = 30522\<rparr>"

definition scenario_batch :: batch where
  "scenario_batch = \<lparr>seq_len = 9, rows = [[101, 5, 6, 7, 8, 9, 10, 11, 102]]\<rparr>"

definition short_batch :: batch where
  "short_batch = \<lparr>seq_len = 6, rows = [[101, 5, 6, 7, 8, 102]]\<rparr>"

definition scenario_segmented :: segmented where
  "scenario_segmented =
     \<lparr>seg_input_ids =
        [[[101, 30522, 30523, 102, 5, 6, 102, 0, 0, 0]],
         [[101, 30522, 30523, 102, 7, 8, 9, 10, 11, 102]]],
      seg_attention_mask =
        [[[1, 1, 1, 1, 1, 1, 1, 0, 0, 0]], [[1, 1, 1, 1, 1, 1, 1, 1, 1, 1]]],
      seg_token_type_ids =
        [[[0, 0, 0, 0, 0, 0, 0, 0, 0, 0]], [[0, 0, 0, 0, 0, 0, 0, 0, 0, 0]]]\<rparr>"

text \<open>A small configuration with one memory slot and capacity 1, and a backbone on integer
  ``vectors'': the embedding of a token is the token, the loss of a step is the first
  content token of its first example, and a hidden state adds that token to every input
  position.\<close>

definition tiny_cfg :: rmt_config where
  "tiny_cfg =
     \<lparr>drop_empty_segments = True, sum_loss = True, input_size = 5, input_seg_size = None,
      num_mem_tokens = 1, bptt_depth = 1, pad_token_id = 0, cls_token_id = 101,
      sep_token_id = 102, vocab_size = 1000\<rparr>"

definition tiny_batch :: batch where
  "tiny_batch = \<lparr>seq_len = 5, rows = [[101, 1, 2, 3, 102]]\<rparr>"

definition blank_batch :: batch where
  "blank_batch = \<lparr>seq_len = 2, rows = [[101, 102]]\<rparr>"

definition tiny_backbone :: "int backbone" where
  "tiny_backbone =
     \<lparr>word_embeddings = (\<lambda>t. t),
      forward = (\<lambda>inp.
        \<lparr>loss = Some (real_of_int (hd (drop 3 (hd (inputs_embeds inp))))),
         hidden_last = map (\<lambda>r. map (\<lambda>x. x + hd (drop 3 r)) r) (inputs_embeds inp)\<rparr>)\<rparr>"

definition tiny_kwargs :: kwargs where
  "tiny_kwargs = [''labels'' \<mapsto> [7]]"

definition tiny_segmented :: segmented where
  "tiny_segmented =
     \<lparr>seg_input_ids =
        [[[101, 1000, 102, 102, 0]], [[101, 1000, 102, 102, 0]],
         [[101, 1000, 102, 1, 102]], [[101, 1000, 102, 2, 102]], [[101, 1000, 102, 3, 102]]],
      seg_attention_mask =
        [[[1, 1, 1, 1, 0]], [[1, 1, 1, 1, 0]],
         [[1, 1, 1, 1, 1]], [[1, 1, 1, 1, 1]], [[1, 1, 1, 1, 1]]],
      seg_token_type_ids =
        [[[0, 0, 0, 0, 0]], [[0, 0, 0, 0, 0]],
         [[0, 0, 0, 0, 0]], [[0, 0, 0, 0, 0]], [[0, 0, 0, 0, 0]]]\<rparr>"

definition blank_segmented :: segmented where
  "blank_segmented =
     \<lparr>seg_input_ids = [[[101, 1000, 102, 102, 0]], [[101, 1000, 102, 102, 0]]],
      seg_attention_mask = [[[1, 1, 1, 1, 0]], [[1, 1, 1, 1, 0]]],
      seg_token_type_ids = [[[0, 0, 0, 0, 0]], [[0, 0, 0, 0, 0]]]\<rparr>"

text \<open>What the tiny backbone receives and returns at a step with memory \<open>m\<close> and content
  token \<open>c\<close>.\<close>

definition tiny_input :: "int \<Rightarrow> int \<Rightarrow> int model_input" where
  "tiny_input m c =
     \<lparr>kw = tiny_kwargs(''labels'' \<mapsto> [7]), inputs_embeds = [[101, m, 102, c, 102]],
      attention_mask = [[1, 1, 1, 1, 1]], token_type_ids = [[0, 0, 0, 0, 0]]\<rparr>"

definition tiny_output :: "int \<Rightarrow> int \<Rightarrow> int model_output" where
  "tiny_output m c =
     \<lparr>loss = Some (real_of_int c),
      hidden_last = [[101 + c, m + c, 102 + c, c + c, 102 + c]]\<rparr>"

definition tiny_final :: "int loop_state" where
  "tiny_final =
     \<lparr>memory = Mem3 [[104]],
      outputs = [tiny_output 1000 1, tiny_output 102 2, tiny_output 103 3],
      detach_log = [True, True, False, False, False],
      forward_log = [tiny_input 1000 1, tiny_input 102 2, tiny_input 103 3]\<rparr>"



section \<open>Properties\<close>

subsection \<open>Ranges and slices\<close>

lemma range_len_step:
  assumes "step < 0" "stop < start"
  shows "range_len start stop step = Suc (range_len (start + step) stop step)"
proof (cases "stop < start + step")
  case True
  have "(start - stop - 1) div (- step) = (start + step - stop - 1) div (- step) + 1"
  proof -
    define b where "b = - step"
    define a where "a = start + step - stop - 1"
    have b: "b \<noteq> 0" using assms(1) by (simp add: b_def)
    have e: "start - stop - 1 = a + b" by (simp add: a_def b_def)
    have "(start - stop - 1) div b = a div b + 1"
      unfolding e using b by (rule div_add_self2)
    then show ?thesis unfolding a_def b_def .
  qed
  moreover have "0 \<le> (start + step - stop - 1) div (- step)"
    using True assms(1) by (simp add: pos_imp_zdiv_nonneg_iff)
  ultimately show ?thesis using assms True by (simp add: range_len_def nat_add_distrib)
next
  case False
  then have "(start - stop - 1) div (- step) = 0"
    using assms by (intro div_pos_pos_trivial) auto
  then show ?thesis using assms False by (simp add: range_len_def)
qed

lemma py_range_step:
  assumes "step < 0" "stop < start"
  shows "py_range start stop step = start # py_range (start + step) stop step"
proof -
  have "[0 ..< Suc n] = 0 # map Suc [0 ..< n]" for n
    by (simp add: upt_conv_Cons map_Suc_upt del: upt_Suc)
  then show ?thesis
    unfolding py_range_def range_len_step [OF assms]
    by (simp add: comp_def algebra_simps del: upt_Suc)
qed

lemma py_range_empty: "step < 0 \<Longrightarrow> start \<le> stop \<Longrightarrow> py_range start stop step = []"
  by (simp add: py_range_def range_len_def)

lemma py_range_stop_pos: "0 < step \<Longrightarrow> stop \<le> start \<Longrightarrow> py_range start stop step = []"
  by (simp add: py_range_def range_len_def)

lemma py_range_bounds:
  "step < 0 \<Longrightarrow> x \<in> set (py_range start stop step) \<Longrightarrow> stop < x \<and> x \<le> start"
proof (induction "nat (start - stop)" arbitrary: start rule: less_induct)
  case less
  show ?case
  proof (cases "stop < start")
    case True
    with less.prems have "x = start \<or> x \<in> set (py_range (start + step) stop step)"
      by (simp add: py_range_step)
    then show ?thesis
    proof
      assume "x = start" with True show ?thesis by simp
    next
      assume mem: "x \<in> set (py_range (start + step) stop step)"
      have "nat (start + step - stop) < nat (start - stop)" using True less.prems(1) by simp
      from less.hyps [OF this less.prems(1) mem] less.prems(1) show ?thesis by simp
    qed
  next
    case False
    with less.prems show ?thesis by (simp add: py_range_empty)
  qed
qed


lemma py_slice_nat: "py_slice xs (int s) (int e) = take (e - s) (drop s xs)"
  by (cases "s \<le> length xs") (auto simp: py_slice_def slice_bound_def min_def)

lemma py_slice_take:
  assumes "0 \<le> s" "0 \<le> e" "e \<le> int n"
  shows "py_slice (take n xs) s e = py_slice xs s e"
proof -
  obtain s' e' where s: "s = int s'" and e: "e = int e'"
    using assms(1,2) by (metis nat_0_le)
  have "e' \<le> n" using assms(3) e by simp
  then have "take (e' - s') (drop s' (take n xs)) = take (e' - s') (drop s' xs)"
    by (simp add: drop_take min_def)
  then show ?thesis unfolding s e py_slice_nat .
qed

lemma zip_tl_snoc:
  "inds \<noteq> [] \<Longrightarrow> zip (inds @ [a]) (tl (inds @ [a])) = zip inds (tl inds) @ [(last inds, a)]"
proof (induction inds)
  case Nil
  then show ?case by simp
next
  case (Cons i inds)
  then show ?case by (cases inds) auto
qed

lemma seg_sep_inds_Nil: "seg_sep_inds k [] = [0]"
  by (simp add: seg_sep_inds_def py_range_def range_len_def)

lemma input_segments_Nil: "input_segments k [] = []"
  by (simp add: input_segments_def seg_sep_inds_Nil)

lemma seg_sep_inds_snoc:
  assumes "0 < k" "xs \<noteq> []"
  shows "seg_sep_inds k xs
         = seg_sep_inds k (take (length xs - nat k) xs) @ [int (length xs)]"
proof -
  have "py_range (int (length xs)) 0 (- k)
        = int (length xs) # py_range (int (length xs) - k) 0 (- k)"
    using assms py_range_step [of "- k" 0 "int (length xs)"] by simp
  moreover have "py_range (int (length xs) - k) 0 (- k)
        = py_range (int (length xs - nat k)) 0 (- k)"
  proof (cases "nat k \<le> length xs")
    case True
    then have "int (length xs - nat k) = int (length xs) - k" using assms(1) by simp
    then show ?thesis by simp
  next
    case False
    then have "int (length xs) - k \<le> 0" "int (length xs - nat k) \<le> 0" by simp_all
    then show ?thesis using assms(1) by (simp add: py_range_empty)
  qed
  ultimately show ?thesis by (simp add: seg_sep_inds_def)
qed

lemma seg_sep_inds_bounds:
  "0 < k \<Longrightarrow> x \<in> set (seg_sep_inds k xs) \<Longrightarrow> 0 \<le> x \<and> x \<le> int (length xs)"
  using py_range_bounds [of "- k" x "int (length xs)" 0]
  by (auto simp: seg_sep_inds_def)

lemma seg_sep_inds_last: "0 < k \<Longrightarrow> last (seg_sep_inds k xs) = int (length xs)"
  by (cases "xs = []") (simp_all add: seg_sep_inds_Nil seg_sep_inds_snoc [of k xs])

text \<open>The chunking walks backward from the end: the last chunk is the last \<open>k\<close> tokens.\<close>

lemma input_segments_rec:
  assumes k: "0 < k" and ne: "xs \<noteq> []"
  shows "input_segments k xs
         = input_segments k (take (length xs - nat k) xs) @ [drop (length xs - nat k) xs]"
proof -
  let ?n = "length xs - nat k"
  let ?pre = "take ?n xs"
  let ?inds = "seg_sep_inds k ?pre"
  have inds: "seg_sep_inds k xs = ?inds @ [int (length xs)]"
    using k ne by (rule seg_sep_inds_snoc)
  have ne': "?inds \<noteq> []" by (simp add: seg_sep_inds_def)
  have len_pre: "length ?pre = ?n" by simp
  have last: "last ?inds = int ?n"
    using seg_sep_inds_last [OF k, of ?pre] by simp
  have same: "py_slice xs s e = py_slice ?pre s e"
    if "(s, e) \<in> set (zip ?inds (tl ?inds))" for s e
  proof -
    have "s \<in> set ?inds" "e \<in> set (tl ?inds)"
      using that by (auto dest: set_zip_leftD set_zip_rightD)
    moreover have "set (tl ?inds) \<subseteq> set ?inds"
      using ne' by (cases ?inds) auto
    ultimately have "s \<in> set ?inds" "e \<in> set ?inds" by auto
    then have "0 \<le> s" "0 \<le> e" "e \<le> int ?n"
      using seg_sep_inds_bounds [OF k, of _ ?pre] by auto
    then show ?thesis by (simp add: py_slice_take)
  qed
  have "input_segments k xs
        = map (\<lambda>(s, e). py_slice xs s e) (zip ?inds (tl ?inds))
          @ [py_slice xs (int ?n) (int (length xs))]"
    by (simp add: input_segments_def Let_def inds zip_tl_snoc [OF ne'] last)
  also have "map (\<lambda>(s, e). py_slice xs s e) (zip ?inds (tl ?inds))
        = map (\<lambda>(s, e). py_slice ?pre s e) (zip ?inds (tl ?inds))"
    using same by (intro map_cong) auto
  also have "\<dots> = input_segments k ?pre"
    by (simp add: input_segments_def Let_def)
  also have "py_slice xs (int ?n) (int (length xs)) = drop ?n xs"
    by (simp add: py_slice_nat)
  finally show ?thesis .
qed


lemma concat_input_segments: "0 < k \<Longrightarrow> concat (input_segments k xs) = xs"
proof (induction "length xs" arbitrary: xs rule: less_induct)
  case less
  show ?case
  proof (cases "xs = []")
    case True
    then show ?thesis by (simp add: input_segments_Nil)
  next
    case False
    then have "length (take (length xs - nat k) xs) < length xs"
      using less.prems by (cases xs) auto
    from less.hyps [OF this less.prems] show ?thesis
      by (simp add: input_segments_rec [OF less.prems False])
  qed
qed

lemma ceil_small: "0 < (l::int) \<Longrightarrow> l \<le> k \<Longrightarrow> (- l) div k = - 1"
  by (metis add.commute add_le_same_cancel2 add_minus_cancel div_minus_right
      div_pos_neg_trivial)

lemma ceil_shift: "0 < (k::int) \<Longrightarrow> (- (l - k)) div k = (- l) div k + 1"
proof -
  assume "0 < k"
  then have "k \<noteq> 0" by simp
  then have "(- l + k) div k = (- l) div k + 1" by (rule div_add_self2)
  moreover have "- (l - k) = - l + k" by simp
  ultimately show ?thesis by (simp only:)
qed

lemma length_input_segments:
  "0 < k \<Longrightarrow> int (length (input_segments k xs)) = - ((- int (length xs)) div k)"
proof (induction "length xs" arbitrary: xs rule: less_induct)
  case less
  let ?pre = "take (length xs - nat k) xs"
  show ?case
  proof (cases "xs = []")
    case True
    then show ?thesis by (simp add: input_segments_Nil)
  next
    case False
    then have "length ?pre < length xs"
      using less.prems by (cases xs) auto
    from less.hyps [OF this less.prems]
    have ih: "int (length (input_segments k ?pre)) = - ((- int (length ?pre)) div k)" .
    have len: "int (length (input_segments k xs)) = int (length (input_segments k ?pre)) + 1"
      by (simp add: input_segments_rec [OF less.prems False])
    show ?thesis
    proof (cases "int (length xs) \<le> k")
      case True
      then have z: "length xs - nat k = 0" by simp
      have pre: "length (input_segments k ?pre) = 0"
        unfolding z by (simp add: input_segments_Nil)
      have "(- int (length xs)) div k = - 1"
        using False True by (intro ceil_small) simp_all
      then show ?thesis unfolding len pre by simp
    next
      case gt: False
      then have "int (length ?pre) = int (length xs) - k" using less.prems by simp
      then show ?thesis using len ih ceil_shift [OF less.prems, of "int (length xs)"] by simp
    qed
  qed
qed

lemma input_segments_chunk_len:
  "0 < k \<Longrightarrow> c \<in> set (input_segments k xs) \<Longrightarrow> 0 < length c \<and> int (length c) \<le> k"
proof (induction "length xs" arbitrary: xs rule: less_induct)
  case less
  let ?pre = "take (length xs - nat k) xs"
  show ?case
  proof (cases "xs = []")
    case True
    with less.prems show ?thesis by (simp add: input_segments_Nil)
  next
    case False
    then have lt: "length ?pre < length xs"
      using less.prems by (cases xs) auto
    from less.prems False have "c \<in> set (input_segments k ?pre) \<or> c = drop (length xs - nat k) xs"
      by (auto simp: input_segments_rec [of k xs])
    then show ?thesis
    proof
      assume "c \<in> set (input_segments k ?pre)"
      from less.hyps [OF lt less.prems(1) this] show ?thesis .
    next
      assume "c = drop (length xs - nat k) xs"
      then show ?thesis using False less.prems(1) by auto
    qed
  qed
qed

text \<open>Only the first chunk can be short; every later chunk holds exactly \<open>k\<close> tokens.\<close>

lemma input_segments_shape:
  "0 < k \<Longrightarrow> xs \<noteq> [] \<Longrightarrow>
   \<exists>c rest. input_segments k xs = c # rest
     \<and> int (length c) = (if int (length xs) mod k = 0 then k else int (length xs) mod k)
     \<and> (\<forall>d \<in> set rest. int (length d) = k)"
proof (induction "length xs" arbitrary: xs rule: less_induct)
  case less
  let ?pre = "take (length xs - nat k) xs"
  have rec: "input_segments k xs = input_segments k ?pre @ [drop (length xs - nat k) xs]"
    using less.prems by (rule input_segments_rec)
  show ?case
  proof (cases "int (length xs) \<le> k")
    case True
    then have z: "length xs - nat k = 0" by simp
    have rec0: "input_segments k xs = [xs]"
      unfolding rec z by (simp add: input_segments_Nil)
    have "int (length xs) = (if int (length xs) mod k = 0 then k else int (length xs) mod k)"
    proof (cases "int (length xs) = k")
      case True
      then show ?thesis by simp
    next
      case False
      with True have "int (length xs) < k" by simp
      moreover have "0 < int (length xs)" using less.prems(2) by simp
      ultimately show ?thesis by simp
    qed
    then show ?thesis unfolding rec0 by simp
  next
    case False
    then have len: "int (length ?pre) = int (length xs) - k" using less.prems(1) by simp
    have "0 < int (length ?pre)" unfolding len using False by simp
    then have ne: "?pre \<noteq> []" by (metis length_0_conv of_nat_0 less_irrefl)
    have lt: "length ?pre < length xs" using less.prems by (cases xs) auto
    from less.hyps [OF lt less.prems(1) ne] obtain c rest where
      ih: "input_segments k ?pre = c # rest"
          "int (length c) = (if int (length ?pre) mod k = 0 then k else int (length ?pre) mod k)"
          "\<forall>d \<in> set rest. int (length d) = k"
      by blast
    have m: "int (length ?pre) mod k = int (length xs) mod k"
      unfolding len by simp
    have "int (length (drop (length xs - nat k) xs)) = k"
      using False less.prems(1) by simp
    then show ?thesis using ih rec m by simp
  qed
qed

subsection \<open>The shape of a segmentation\<close>

lemma strip_row_filter:
  "strip_row cfg row = butlast (tl (filter (\<lambda>x. x \<noteq> pad_token_id cfg) row))"
proof -
  have sel: "mask_select row (map (\<lambda>x. x \<noteq> pad_token_id cfg) row)
             = Inr (filter (\<lambda>x. x \<noteq> pad_token_id cfg) row)"
    unfolding mask_select_def by (induction row) auto
  have sl: "py_slice xs 1 (- 1) = butlast (tl xs)" for xs :: "int list"
    by (cases xs) (auto simp: py_slice_def slice_bound_def butlast_conv_take)
  show ?thesis by (simp add: strip_row_def sel sl)
qed

lemma length_strip_row_le: "length (strip_row cfg row) \<le> length row"
proof -
  let ?kept = "filter (\<lambda>x. x \<noteq> pad_token_id cfg) row"
  have "length (butlast (tl ?kept)) \<le> length ?kept" by simp
  also have "\<dots> \<le> length row" by (rule length_filter_le)
  finally show ?thesis unfolding strip_row_filter .
qed

lemma length_pad_add_special_tokens:
  assumes "int (length c) \<le> seg_capacity cfg"
  shows "int (length (pad_add_special_tokens cfg c (input_size cfg))) = input_size cfg"
proof -
  have "seg_capacity cfg \<le> input_size cfg - int (num_mem_tokens cfg) - 3"
    by (simp add: seg_capacity_def Let_def split: option.splits)
  with assms have "int (length c) + int (num_mem_tokens cfg) + 3 \<le> input_size cfg" by simp
  then show ?thesis
    by (simp add: pad_add_special_tokens_def Let_def mem_token_ids_def)
qed

lemma length_empty_segment:
  "0 \<le> seg_capacity cfg \<Longrightarrow> int (length (empty_segment cfg)) = input_size cfg"
  unfolding empty_segment_def by (rule length_pad_add_special_tokens) simp

lemma ceil_div_mono:
  "0 < (k::int) \<Longrightarrow> l \<le> s \<Longrightarrow> - ((- l) div k) \<le> - ((- s) div k)"
  by (simp add: zdiv_mono1)

lemma ceil_div_nonpos: "(k::int) < 0 \<Longrightarrow> 0 \<le> s \<Longrightarrow> - ((- s) div k) \<le> 0"
  by (simp add: neg_imp_zdiv_nonneg_iff)

lemma row_segments_length:
  assumes k: "0 < seg_capacity cfg" and len: "length row \<le> s"
    and n: "n = - ((- int s) div seg_capacity cfg)"
  shows "length (row_segments cfg n row) = nat n"
proof -
  let ?chunks = "input_segments (seg_capacity cfg) (strip_row cfg row)"
  have "int (length ?chunks) = - ((- int (length (strip_row cfg row))) div seg_capacity cfg)"
    using k by (rule length_input_segments)
  also have "\<dots> \<le> n"
    unfolding n using k length_strip_row_le [of cfg row] len
    by (intro ceil_div_mono) auto
  finally show ?thesis by (simp add: row_segments_def Let_def)
qed

lemma row_segments_elem_length:
  assumes k: "0 < seg_capacity cfg" and mem: "seg \<in> set (row_segments cfg n row)"
  shows "int (length seg) = input_size cfg"
proof -
  from mem consider "seg = empty_segment cfg"
    | c where "c \<in> set (input_segments (seg_capacity cfg) (strip_row cfg row))"
        "seg = pad_add_special_tokens cfg c (input_size cfg)"
    by (auto simp: row_segments_def Let_def)
  then show ?thesis
  proof cases
    case 1
    then show ?thesis using k by (simp add: length_empty_segment)
  next
    case 2
    then show ?thesis
      using input_segments_chunk_len [OF k 2(1)] by (simp add: length_pad_add_special_tokens)
  qed
qed

lemma augment_rows_Inr:
  "augment_rows cfg n rs = Inr as \<Longrightarrow>
     as = map (\<lambda>r. concat (row_segments cfg n r)) rs"
  by (induction rs arbitrary: as) (auto simp: torch_cat_def split: sum.splits if_splits)

lemma torch_stack_Inr: "torch_stack ts = Inr t \<Longrightarrow> t = ts \<and> ts \<noteq> []"
  by (auto simp: torch_stack_def split: list.splits if_splits)

lemma split_cols_Suc:
  "0 < sz \<Longrightarrow> split_cols sz (Suc m * sz) t
     = map (take sz) t # split_cols sz (m * sz) (map (drop sz) t)"
  by (subst split_cols.simps) simp

lemma split_cols_0: "split_cols sz 0 t = []"
  by (subst split_cols.simps) simp

lemma split_cols_length: "0 < sz \<Longrightarrow> length (split_cols sz (m * sz) t) = m"
  by (induction m arbitrary: t) (simp_all add: split_cols_0 split_cols_Suc del: mult_Suc)

lemma split_cols_batch:
  "0 < sz \<Longrightarrow> c \<in> set (split_cols sz (m * sz) t) \<Longrightarrow> length c = length t"
  by (induction m arbitrary: t) (auto simp: split_cols_0 split_cols_Suc simp del: mult_Suc)

lemma split_cols_row:
  assumes "0 < sz" "i < length t" "t ! i = concat segs" "\<forall>s \<in> set segs. length s = sz"
  shows "map (\<lambda>c. c ! i) (split_cols sz (length segs * sz) t) = segs"
  using assms(2-)
proof (induction segs arbitrary: t)
  case Nil
  then show ?case by (simp add: split_cols_0)
next
  case (Cons s segs)
  have "map (\<lambda>c. c ! i) (split_cols sz (length segs * sz) (map (drop sz) t)) = segs"
    using Cons.prems by (intro Cons.IH) auto
  then show ?case
    using Cons.prems assms(1) by (simp add: split_cols_Suc del: mult_Suc)
qed


lemma split_cols_width:
  "0 < sz \<Longrightarrow> \<forall>r \<in> set t. length r = m * sz \<Longrightarrow> c \<in> set (split_cols sz (m * sz) t)
   \<Longrightarrow> r \<in> set c \<Longrightarrow> length r = sz"
proof (induction m arbitrary: t)
  case 0
  then show ?case by (simp add: split_cols_0)
next
  case (Suc m)
  from Suc.prems(3) Suc.prems(1)
  consider "c = map (take sz) t" | "c \<in> set (split_cols sz (m * sz) (map (drop sz) t))"
    by (auto simp: split_cols_Suc simp del: mult_Suc)
  then show ?case
  proof cases
    case 1
    then show ?thesis using Suc.prems(2,4) by auto
  next
    case 2
    have "\<forall>r \<in> set (map (drop sz) t). length r = m * sz" using Suc.prems(2) by auto
    from Suc.IH [OF Suc.prems(1) this 2 Suc.prems(4)] show ?thesis .
  qed
qed

lemma length_concat_uniform:
  "\<forall>s \<in> set xs. length s = k \<Longrightarrow> length (concat xs) = length xs * k"
  by (induction xs) auto

lemma chunk_width:
  assumes "0 < n"
  shows "(n * i + n - 1) div n = (i::nat)"
proof -
  obtain k where n: "n = Suc k" using assms by (cases n) auto
  have "n * i + n - 1 = k + i * n" unfolding n by simp
  moreover have "(k + i * n) div n = k div n + i"
    using assms by simp
  moreover have "k div n = 0" unfolding n by simp
  ultimately show ?thesis by (simp only: add_0)
qed

lemma pad_and_segment_Inr:
  assumes ok: "pad_and_segment cfg b = Inr sg" and wf: "wf_batch b"
  obtains n where
    "n_segments_of cfg b = Inr n" "0 < n" "0 < seg_capacity cfg" "0 < input_size cfg"
    "rows b \<noteq> []"
    "seg_input_ids sg
       = split_cols (nat (input_size cfg)) (nat n * nat (input_size cfg))
           (map (\<lambda>r. concat (row_segments cfg n r)) (rows b))"
    "\<forall>r \<in> set (rows b). length (row_segments cfg n r) = nat n"
proof -
  let ?aug = "\<lambda>n. map (\<lambda>r. concat (row_segments cfg n r)) (rows b)"
  let ?isz = "nat (input_size cfg)"
  from ok obtain n augmented aug segs where
    n: "n_segments_of cfg b = Inr n" and
    a: "augment_rows cfg n (rows b) = Inr augmented" and
    s: "torch_stack augmented = Inr aug" and
    c: "torch_chunk aug n = Inr segs" and
    sg: "seg_input_ids sg = segs"
    by (auto simp: pad_and_segment_def Let_def split: sum.splits)
  have aug: "aug = ?aug n" and ne: "rows b \<noteq> []"
    using augment_rows_Inr [OF a] torch_stack_Inr [OF s] by auto
  have npos: "0 < n" using c by (auto simp: torch_chunk_def split: if_splits)
  have nval: "n = - ((- int (seq_len b)) div seg_capacity cfg)" and k0: "seg_capacity cfg \<noteq> 0"
    using n by (auto simp: n_segments_of_def ceil_div_def split: if_splits)
  have k: "0 < seg_capacity cfg"
  proof (rule ccontr)
    assume "\<not> 0 < seg_capacity cfg"
    with k0 have "seg_capacity cfg < 0" by simp
    then have "n \<le> 0" unfolding nval by (intro ceil_div_nonpos) simp_all
    with npos show False by simp
  qed
  have cnt: "\<forall>r \<in> set (rows b). length (row_segments cfg n r) = nat n"
    using wf k nval by (auto simp: wf_batch_def intro!: row_segments_length)
  have isz: "0 < input_size cfg"
  proof -
    have "int (length (empty_segment cfg)) = input_size cfg"
      using k by (simp add: length_empty_segment)
    moreover have "0 < length (empty_segment cfg)"
      by (simp add: empty_segment_def pad_add_special_tokens_def Let_def)
    ultimately show ?thesis by linarith
  qed
  have elem: "length seg = ?isz" if "r \<in> set (rows b)" "seg \<in> set (row_segments cfg n r)" for r seg
    using row_segments_elem_length [OF k that(2)] by simp
  have width: "length (concat (row_segments cfg n r)) = nat n * ?isz" if "r \<in> set (rows b)" for r
  proof -
    have "\<forall>seg \<in> set (row_segments cfg n r). length seg = ?isz"
      using elem [OF that] by blast
    then have "length (concat (row_segments cfg n r)) = length (row_segments cfg n r) * ?isz"
      by (rule length_concat_uniform)
    then show ?thesis using cnt that by simp
  qed
  have "length (hd aug) = nat n * ?isz"
    using ne width unfolding aug by (cases "rows b") auto
  moreover have "(nat n * ?isz + nat n - 1) div nat n = ?isz"
    using npos by (intro chunk_width) simp
  ultimately have "segs = split_cols ?isz (nat n * ?isz) aug"
    using c npos isz by (simp add: torch_chunk_def Let_def)
  then show ?thesis using that n npos k isz ne sg aug cnt by blast
qed

lemma pad_and_segment_row:
  assumes ok: "pad_and_segment cfg b = Inr sg" and wf: "wf_batch b" and i: "i < length (rows b)"
  shows "map (\<lambda>c. c ! i) (seg_input_ids sg)
         = row_segments cfg (int (length (seg_input_ids sg))) (rows b ! i)"
proof -
  from ok wf obtain n where
    npos: "0 < n" and k: "0 < seg_capacity cfg" and isz: "0 < input_size cfg" and
    segs: "seg_input_ids sg
       = split_cols (nat (input_size cfg)) (nat n * nat (input_size cfg))
           (map (\<lambda>r. concat (row_segments cfg n r)) (rows b))" and
    cnt: "\<forall>r \<in> set (rows b). length (row_segments cfg n r) = nat n"
    by (rule pad_and_segment_Inr)
  let ?isz = "nat (input_size cfg)"
  let ?t = "map (\<lambda>r. concat (row_segments cfg n r)) (rows b)"
  let ?segs = "row_segments cfg n (rows b ! i)"
  have len: "length ?segs = nat n" using cnt i by simp
  have "length (seg_input_ids sg) = nat n"
    unfolding segs using isz by (simp add: split_cols_length)
  then have n: "int (length (seg_input_ids sg)) = n" using npos by simp
  have "\<forall>s \<in> set ?segs. length s = ?isz"
    using row_segments_elem_length [OF k] by (metis nat_int)
  moreover have "?t ! i = concat ?segs" using i by simp
  moreover have "i < length ?t" using i by simp
  moreover have "0 < ?isz" using isz by simp
  ultimately have "map (\<lambda>c. c ! i) (split_cols ?isz (length ?segs * ?isz) ?t) = ?segs"
    by (intro split_cols_row)
  then have "map (\<lambda>c. c ! i) (seg_input_ids sg) = ?segs" unfolding segs len .
  then show ?thesis unfolding n .
qed

lemma seg_content_wrap:
  assumes "sep_token_id cfg \<noteq> 0"
  shows "seg_content cfg (pad_add_special_tokens cfg c sz) = c"
proof -
  obtain p where w: "pad_add_special_tokens cfg c sz
      = (cls_token_id cfg # mem_token_ids cfg @ [sep_token_id cfg]) @ c @ [sep_token_id cfg]
        @ replicate p 0"
    by (cases "0 < sz - int (length ([cls_token_id cfg] @ mem_token_ids cfg @ [sep_token_id cfg] @ c
              @ [sep_token_id cfg]))")
       (auto simp: pad_add_special_tokens_def Let_def intro: that [of 0])
  have "length (cls_token_id cfg # mem_token_ids cfg @ [sep_token_id cfg]) = num_mem_tokens cfg + 2"
    by (simp add: mem_token_ids_def)
  then have "drop (num_mem_tokens cfg + 2) (pad_add_special_tokens cfg c sz)
      = c @ [sep_token_id cfg] @ replicate p 0"
    unfolding w by (metis append_eq_conv_conj)
  moreover have "dropWhile (\<lambda>x. x = 0) (replicate p (0::int) @ sep_token_id cfg # rev c)
      = sep_token_id cfg # rev c"
    using assms by (induction p) auto
  ultimately show ?thesis by (simp add: seg_content_def)
qed

subsection \<open>Evaluation on concrete inputs\<close>

lemma replicate_step: "0 < n \<Longrightarrow> replicate n x = x # replicate (n - 1) x"
  by (cases n) simp_all

lemmas eval_prims = replicate_step
  ceil_div_def range_len_def py_range_def slice_bound_def py_slice_def mask_select_def
  torch_cat_def torch_stack_def torch_chunk_def split_cols.simps upt_conv_Cons Let_def

lemmas eval_segmenter =
  mem_token_ids_def seg_capacity_def strip_row_def seg_sep_inds_def input_segments_def
  pad_add_special_tokens_def empty_segment_def row_segments_def n_segments_of_def
  pad_and_segment_def

lemma scenario_row_segments:
  "row_segments scenario_cfg 2 [101, 5, 6, 7, 8, 9, 10, 11, 102]
   = [[101, 30522, 30523, 102, 5, 6, 102, 0, 0, 0],
      [101, 30522, 30523, 102, 7, 8, 9, 10, 11, 102]]"
  by (simp add: eval_prims eval_segmenter scenario_cfg_def)

lemma scenario_segmentation:
  "pad_and_segment scenario_cfg scenario_batch = Inr scenario_segmented"
  by (simp add: eval_prims eval_segmenter scenario_cfg_def scenario_batch_def
      scenario_segmented_def)

lemma wf_scenario_batch: "wf_batch scenario_batch"
  by (simp add: wf_batch_def scenario_batch_def)

section \<open>The claims about the segmenter\<close>

text \<open>
  Claim C10. The content of a row is what remains after every occurrence of the pad id is
  deleted, wherever it stands, and the first and the last of the remaining tokens are then
  dropped, whatever they are. A row with a pad id in the middle, or without boundary
  markers, loses content tokens: the witness row \<open>[5, 0, 6, 0, 7]\<close> keeps only \<open>[6]\<close>.
\<close>

theorem strip_row_deletes_pads_then_ends:
  "strip_row cfg row = butlast (tl (filter (\<lambda>x. x \<noteq> pad_token_id cfg) row))
   \<and> pad_token_id cfg \<notin> set (strip_row cfg row)
   \<and> length (strip_row cfg row) = length (filter (\<lambda>x. x \<noteq> pad_token_id cfg) row) - 2"
proof -
  let ?kept = "filter (\<lambda>x. x \<noteq> pad_token_id cfg) row"
  have "set (butlast (tl ?kept)) \<subseteq> set ?kept"
    by (cases ?kept) (auto dest: in_set_butlastD)
  then have "pad_token_id cfg \<notin> set (butlast (tl ?kept))" by auto
  then show ?thesis by (simp add: strip_row_filter)
qed

theorem strip_row_deletes_pads_then_ends_witness:
  "strip_row scenario_cfg [5, 0, 6, 0, 7] = [6]
   \<and> strip_row scenario_cfg [5, 0, 6, 0, 7]
       = butlast (tl (filter (\<lambda>x. x \<noteq> pad_token_id scenario_cfg) [5, 0, 6, 0, 7]))"
  using strip_row_deletes_pads_then_ends [of scenario_cfg "[5, 0, 6, 0, 7]"]
  by (simp add: scenario_cfg_def)

text \<open>
  Claim C9. When the length of the stripped content is not a multiple of the capacity
  \<open>K\<close>, the first content chunk holds \<open>L mod K < K\<close> tokens and every later chunk holds
  exactly \<open>K\<close>; the segments of the row are the empty sentinels followed by these chunks,
  wrapped. The witness is the scenario of the specification: content \<open>[5, \<dots>, 11]\<close> with
  \<open>K = 5\<close> gives \<open>[5, 6]\<close> and \<open>[7, 8, 9, 10, 11]\<close>.
\<close>

theorem first_segment_shorter:
  assumes "0 < seg_capacity cfg"
    and "int (length (strip_row cfg row)) mod seg_capacity cfg \<noteq> 0"
  shows "input_segments (seg_capacity cfg) (strip_row cfg row) \<noteq> []
    \<and> int (length (hd (input_segments (seg_capacity cfg) (strip_row cfg row))))
        = int (length (strip_row cfg row)) mod seg_capacity cfg
    \<and> int (length (hd (input_segments (seg_capacity cfg) (strip_row cfg row))))
        < seg_capacity cfg
    \<and> (\<forall>d \<in> set (tl (input_segments (seg_capacity cfg) (strip_row cfg row))).
          int (length d) = seg_capacity cfg)
    \<and> row_segments cfg n row
        = replicate (nat (n - int (length (input_segments (seg_capacity cfg) (strip_row cfg row)))))
            (empty_segment cfg)
          @ map (\<lambda>t. pad_add_special_tokens cfg t (input_size cfg))
              (input_segments (seg_capacity cfg) (strip_row cfg row))"
proof -
  let ?xs = "strip_row cfg row"
  have ne: "?xs \<noteq> []" using assms(2) by auto
  from input_segments_shape [OF assms(1) ne] obtain c rest where
    sh: "input_segments (seg_capacity cfg) ?xs = c # rest"
      "int (length c) = int (length ?xs) mod seg_capacity cfg"
      "\<forall>d \<in> set rest. int (length d) = seg_capacity cfg"
    using assms(2) by auto
  have "int (length ?xs) mod seg_capacity cfg < seg_capacity cfg"
    using assms(1) by simp
  then show ?thesis using sh by (simp add: row_segments_def Let_def)
qed

theorem first_segment_shorter_witness:
  "0 < seg_capacity scenario_cfg
   \<and> int (length (strip_row scenario_cfg [101, 5, 6, 7, 8, 9, 10, 11, 102]))
        mod seg_capacity scenario_cfg \<noteq> 0
   \<and> strip_row scenario_cfg [101, 5, 6, 7, 8, 9, 10, 11, 102] = [5, 6, 7, 8, 9, 10, 11]
   \<and> input_segments (seg_capacity scenario_cfg) [5, 6, 7, 8, 9, 10, 11]
        = [[5, 6], [7, 8, 9, 10, 11]]
   \<and> int (length (hd (input_segments (seg_capacity scenario_cfg)
          (strip_row scenario_cfg [101, 5, 6, 7, 8, 9, 10, 11, 102])))) = 2
   \<and> map length (tl (input_segments (seg_capacity scenario_cfg)
          (strip_row scenario_cfg [101, 5, 6, 7, 8, 9, 10, 11, 102]))) = [5]"
proof -
  have k: "seg_capacity scenario_cfg = 5"
    by (simp add: seg_capacity_def scenario_cfg_def)
  have s: "strip_row scenario_cfg [101, 5, 6, 7, 8, 9, 10, 11, 102] = [5, 6, 7, 8, 9, 10, 11]"
    by (simp add: eval_prims strip_row_def scenario_cfg_def)
  have c: "input_segments 5 [5, 6, 7, 8, 9, 10, 11] = [[5, 6], [7, 8, 9, 10, 11]]"
    by (simp add: eval_prims seg_sep_inds_def input_segments_def)
  have h1: "0 < seg_capacity scenario_cfg" unfolding k by simp
  have h2: "int (length (strip_row scenario_cfg [101, 5, 6, 7, 8, 9, 10, 11, 102]))
        mod seg_capacity scenario_cfg \<noteq> 0"
    unfolding k s by simp
  from first_segment_shorter [OF h1 h2, of 2] h1 h2 show ?thesis
    by (simp add: k s c)
qed

text \<open>
  Claim C8. Whenever segmentation of a (rectangular) batch returns, every row of every
  produced segment has exactly \<open>input_size\<close> tokens, and so has the empty sentinel; the
  content capacity is \<open>input_size - M - 3\<close>, or the configured \<open>input_seg_size\<close> when that
  is smaller.
\<close>

theorem segment_length_invariant:
  assumes "pad_and_segment cfg b = Inr sg" and "wf_batch b"
  shows "(\<forall>seg \<in> set (seg_input_ids sg). \<forall>r \<in> set seg. int (length r) = input_size cfg)
    \<and> int (length (empty_segment cfg)) = input_size cfg
    \<and> seg_capacity cfg
        = (case input_seg_size cfg of
             None \<Rightarrow> input_size cfg - int (num_mem_tokens cfg) - 3
           | Some s \<Rightarrow> min s (input_size cfg - int (num_mem_tokens cfg) - 3))"
proof -
  from assms obtain n where
    k: "0 < seg_capacity cfg" and isz: "0 < input_size cfg" and
    segs: "seg_input_ids sg
       = split_cols (nat (input_size cfg)) (nat n * nat (input_size cfg))
           (map (\<lambda>r. concat (row_segments cfg n r)) (rows b))" and
    cnt: "\<forall>r \<in> set (rows b). length (row_segments cfg n r) = nat n"
    by (rule pad_and_segment_Inr)
  let ?isz = "nat (input_size cfg)"
  let ?t = "map (\<lambda>r. concat (row_segments cfg n r)) (rows b)"
  have width: "\<forall>r \<in> set ?t. length r = nat n * ?isz"
  proof
    fix a assume "a \<in> set ?t"
    then obtain r where r: "r \<in> set (rows b)" "a = concat (row_segments cfg n r)" by auto
    have "\<forall>seg \<in> set (row_segments cfg n r). length seg = ?isz"
      using row_segments_elem_length [OF k] by (metis nat_int)
    then have "length a = length (row_segments cfg n r) * ?isz"
      unfolding r(2) by (rule length_concat_uniform)
    then show "length a = nat n * ?isz" using cnt r(1) by simp
  qed
  have "int (length r) = input_size cfg"
    if "seg \<in> set (seg_input_ids sg)" "r \<in> set seg" for seg r
  proof -
    have "0 < ?isz" using isz by simp
    from split_cols_width [OF this width that(1) [unfolded segs] that(2)]
    show ?thesis using isz by simp
  qed
  moreover have "int (length (empty_segment cfg)) = input_size cfg"
    using k by (simp add: length_empty_segment)
  moreover have "seg_capacity cfg
        = (case input_seg_size cfg of
             None \<Rightarrow> input_size cfg - int (num_mem_tokens cfg) - 3
           | Some s \<Rightarrow> min s (input_size cfg - int (num_mem_tokens cfg) - 3))"
    by (simp add: seg_capacity_def Let_def min_def split: option.splits)
  ultimately show ?thesis by blast
qed

theorem segment_length_invariant_witness:
  "pad_and_segment scenario_cfg scenario_batch = Inr scenario_segmented
   \<and> wf_batch scenario_batch
   \<and> map (map length) (seg_input_ids scenario_segmented) = [[10], [10]]
   \<and> int (length (empty_segment scenario_cfg)) = input_size scenario_cfg
   \<and> seg_capacity scenario_cfg = 5"
  using segment_length_invariant [OF scenario_segmentation wf_scenario_batch]
    scenario_segmentation wf_scenario_batch
  by (simp add: scenario_segmented_def scenario_cfg_def)

text \<open>
  Claim C3. The claim as stated fails: the row \<open>[101, 5, 6, 7, 8, 102]\<close> has stripped
  content of length 4, and \<open>ceil(4 / 5) = 1\<close>, but two segments are produced, because
  \<^verbatim>\<open>sequence_len\<close> is the width of the input tensor (6 here), markers and padding
  included.
\<close>

theorem n_segments_counterexample:
  "segments_produced scenario_cfg short_batch = Inr 2
   \<and> strip_row scenario_cfg [101, 5, 6, 7, 8, 102] = [5, 6, 7, 8]
   \<and> ceil_div (int (length [5, 6, 7, 8 :: int])) (seg_capacity scenario_cfg) = Inr 1"
  by (simp add: eval_prims eval_segmenter scenario_cfg_def short_batch_def
      segments_produced_def bind_err_def)

text \<open>
  Claim C3, as amended. The number of segments is \<open>ceil(W / K)\<close> for the width \<open>W\<close> of the
  input tensor; for each row with stripped content of length \<open>L\<close>, \<open>ceil(L / K)\<close> of them
  carry content, and they are preceded by empty sentinels up to the common count.
\<close>

theorem n_segments_from_width:
  assumes "pad_and_segment cfg b = Inr sg" and "wf_batch b"
  shows "ceil_div (int (seq_len b)) (seg_capacity cfg) = Inr (int (length (seg_input_ids sg)))
    \<and> (\<forall>i < length (rows b).
          ceil_div (int (length (strip_row cfg (rows b ! i)))) (seg_capacity cfg)
            = Inr (int (length (input_segments (seg_capacity cfg) (strip_row cfg (rows b ! i)))))
          \<and> length (input_segments (seg_capacity cfg) (strip_row cfg (rows b ! i)))
              \<le> length (seg_input_ids sg)
          \<and> map (\<lambda>c. c ! i) (seg_input_ids sg)
              = replicate (length (seg_input_ids sg)
                    - length (input_segments (seg_capacity cfg) (strip_row cfg (rows b ! i))))
                  (empty_segment cfg)
                @ map (\<lambda>t. pad_add_special_tokens cfg t (input_size cfg))
                    (input_segments (seg_capacity cfg) (strip_row cfg (rows b ! i))))"
proof -
  from assms obtain n where
    n: "n_segments_of cfg b = Inr n" and npos: "0 < n" and
    k: "0 < seg_capacity cfg" and isz: "0 < input_size cfg" and
    segs: "seg_input_ids sg
       = split_cols (nat (input_size cfg)) (nat n * nat (input_size cfg))
           (map (\<lambda>r. concat (row_segments cfg n r)) (rows b))" and
    cnt: "\<forall>r \<in> set (rows b). length (row_segments cfg n r) = nat n"
    by (rule pad_and_segment_Inr)
  have len: "length (seg_input_ids sg) = nat n"
    unfolding segs using isz by (simp add: split_cols_length)
  then have n': "int (length (seg_input_ids sg)) = n" using npos by simp
  have first: "ceil_div (int (seq_len b)) (seg_capacity cfg)
      = Inr (int (length (seg_input_ids sg)))"
    using n unfolding n' n_segments_of_def .
  have rest: "ceil_div (int (length (strip_row cfg (rows b ! i)))) (seg_capacity cfg)
            = Inr (int (length (input_segments (seg_capacity cfg) (strip_row cfg (rows b ! i)))))
          \<and> length (input_segments (seg_capacity cfg) (strip_row cfg (rows b ! i)))
              \<le> length (seg_input_ids sg)
          \<and> map (\<lambda>c. c ! i) (seg_input_ids sg)
              = replicate (length (seg_input_ids sg)
                    - length (input_segments (seg_capacity cfg) (strip_row cfg (rows b ! i))))
                  (empty_segment cfg)
                @ map (\<lambda>t. pad_add_special_tokens cfg t (input_size cfg))
                    (input_segments (seg_capacity cfg) (strip_row cfg (rows b ! i)))"
    if i: "i < length (rows b)" for i
  proof -
    let ?chunks = "input_segments (seg_capacity cfg) (strip_row cfg (rows b ! i))"
    have a: "ceil_div (int (length (strip_row cfg (rows b ! i)))) (seg_capacity cfg)
        = Inr (int (length ?chunks))"
      using k by (simp add: ceil_div_def length_input_segments)
    have "length (row_segments cfg n (rows b ! i)) = nat n" using cnt i by simp
    then have b: "length ?chunks \<le> length (seg_input_ids sg)"
      unfolding len by (simp add: row_segments_def Let_def)
    have "nat (int (length (seg_input_ids sg)) - int (length ?chunks))
        = length (seg_input_ids sg) - length ?chunks" by simp
    then have c: "map (\<lambda>c. c ! i) (seg_input_ids sg)
        = replicate (length (seg_input_ids sg) - length ?chunks) (empty_segment cfg)
          @ map (\<lambda>t. pad_add_special_tokens cfg t (input_size cfg)) ?chunks"
      unfolding pad_and_segment_row [OF assms i] by (simp add: row_segments_def Let_def)
    from a b c show ?thesis by blast
  qed
  from first rest show ?thesis by blast
qed


theorem n_segments_from_width_witness:
  "pad_and_segment scenario_cfg scenario_batch = Inr scenario_segmented
   \<and> wf_batch scenario_batch
   \<and> ceil_div (int (seq_len scenario_batch)) (seg_capacity scenario_cfg)
       = Inr (int (length (seg_input_ids scenario_segmented)))
   \<and> length (seg_input_ids scenario_segmented) = 2
   \<and> seq_len scenario_batch = 9"
  using n_segments_from_width [OF scenario_segmentation wf_scenario_batch]
    scenario_segmentation wf_scenario_batch
  by (simp add: scenario_segmented_def scenario_batch_def)

text \<open>
  Claim C4. For every row of a batch that segmentation accepts, reading the content back
  from its segments (dropping the start marker, the memory slots and the first separator,
  then the zero padding and the closing separator) and concatenating in order gives the
  stripped content of the row. The separator must differ from the padding value 0 for the
  padding to be told apart.
\<close>

theorem content_reconstruction:
  assumes "pad_and_segment cfg b = Inr sg" and "wf_batch b"
    and "sep_token_id cfg \<noteq> 0" and "i < length (rows b)"
  shows "concat (map (\<lambda>seg. seg_content cfg (seg ! i)) (seg_input_ids sg))
         = strip_row cfg (rows b ! i)"
proof -
  from assms(1,2) obtain n where k: "0 < seg_capacity cfg"
    by (rule pad_and_segment_Inr)
  let ?chunks = "input_segments (seg_capacity cfg) (strip_row cfg (rows b ! i))"
  let ?n = "int (length (seg_input_ids sg))"
  have e: "seg_content cfg (empty_segment cfg) = []"
    unfolding empty_segment_def using assms(3) by (rule seg_content_wrap)
  have w: "map (seg_content cfg) (map (\<lambda>t. pad_add_special_tokens cfg t (input_size cfg)) cs) = cs"
    for cs
    using assms(3) by (induction cs) (simp_all add: seg_content_wrap)
  have "map (\<lambda>seg. seg_content cfg (seg ! i)) (seg_input_ids sg)
      = map (seg_content cfg) (map (\<lambda>c. c ! i) (seg_input_ids sg))"
    by simp
  also have "\<dots> = map (seg_content cfg) (row_segments cfg ?n (rows b ! i))"
    unfolding pad_and_segment_row [OF assms(1,2,4)] ..
  also have "\<dots> = replicate (nat (?n - int (length ?chunks))) [] @ ?chunks"
    using w [of ?chunks] by (simp add: row_segments_def Let_def e)
  finally have "concat (map (\<lambda>seg. seg_content cfg (seg ! i)) (seg_input_ids sg))
      = concat ?chunks"
    by simp
  then show ?thesis using k by (simp add: concat_input_segments)
qed

theorem content_reconstruction_witness:
  "pad_and_segment scenario_cfg scenario_batch = Inr scenario_segmented
   \<and> wf_batch scenario_batch \<and> sep_token_id scenario_cfg \<noteq> 0
   \<and> 0 < length (rows scenario_batch)
   \<and> concat (map (\<lambda>seg. seg_content scenario_cfg (seg ! 0)) (seg_input_ids scenario_segmented))
       = [5, 6, 7, 8, 9, 10, 11]
   \<and> strip_row scenario_cfg (rows scenario_batch ! 0) = [5, 6, 7, 8, 9, 10, 11]"
proof -
  have s: "sep_token_id scenario_cfg \<noteq> 0" by (simp add: scenario_cfg_def)
  have i: "0 < length (rows scenario_batch)" by (simp add: scenario_batch_def)
  have c: "strip_row scenario_cfg (rows scenario_batch ! 0) = [5, 6, 7, 8, 9, 10, 11]"
    by (simp add: eval_prims strip_row_def scenario_cfg_def scenario_batch_def)
  from content_reconstruction [OF scenario_segmentation wf_scenario_batch s i]
  show ?thesis using scenario_segmentation wf_scenario_batch s i c by simp
qed

section \<open>The forward call on concrete inputs\<close>

lemma tiny_segmentation: "pad_and_segment tiny_cfg tiny_batch = Inr tiny_segmented"
  by (simp add: eval_prims eval_segmenter tiny_cfg_def tiny_batch_def tiny_segmented_def)

lemma blank_segmentation: "pad_and_segment tiny_cfg blank_batch = Inr blank_segmented"
  by (simp add: eval_prims eval_segmenter tiny_cfg_def blank_batch_def blank_segmented_def)

lemma tiny_empty: "empty_segment tiny_cfg = [101, 1000, 102, 102, 0]"
  by (simp add: eval_prims eval_segmenter tiny_cfg_def)

lemma tiny_mem: "mem_token_ids tiny_cfg = [1000]"
  by (simp add: eval_prims eval_segmenter tiny_cfg_def)

lemma tiny_fields:
  "drop_empty_segments tiny_cfg" "sum_loss tiny_cfg" "num_mem_tokens tiny_cfg = 1"
  "bptt_depth tiny_cfg = 1"
  by (simp_all add: tiny_cfg_def)

lemma tiny_emb: "word_embeddings tiny_backbone t = t"
  by (simp add: tiny_backbone_def)

lemma tiny_forward: "forward tiny_backbone (tiny_input m c) = tiny_output m c"
  by (simp add: tiny_backbone_def tiny_input_def tiny_output_def)

lemma tiny_step_empty:
  "segment_step tiny_cfg tiny_backbone tiny_kwargs 3 i
     ([[101, 1000, 102, 102, 0]], [[1, 1, 1, 1, 0]], [[0, 0, 0, 0, 0]])
     \<lparr>memory = mem, outputs = outs, detach_log = dl, forward_log = fl\<rparr>
   = Inr \<lparr>memory = Mem3 (rank3 1 mem), outputs = outs, detach_log = dl @ [1 < 3 - i],
          forward_log = fl\<rparr>"
  by (simp add: segment_step_def detach_cond_def non_empty_mask_def tiny_empty tiny_fields)

lemma tiny_step_content:
  assumes "c \<noteq> 102"
  shows "segment_step tiny_cfg tiny_backbone tiny_kwargs 3 i
     ([[101, 1000, 102, c, 102]], [[1, 1, 1, 1, 1]], [[0, 0, 0, 0, 0]])
     \<lparr>memory = Mem3 [[m]], outputs = outs, detach_log = dl, forward_log = fl\<rparr>
   = Inr \<lparr>memory = Mem3 [[101 + c]], outputs = outs @ [tiny_output m c],
          detach_log = dl @ [1 < 3 - i], forward_log = fl @ [tiny_input m c]\<rparr>"
proof -
  have inp: "\<lparr>kw = tiny_kwargs(''labels'' \<mapsto> [7]), inputs_embeds = [[101, m, 102, c, 102]],
      attention_mask = [[1, 1, 1, 1, 1]], token_type_ids = [[0, 0, 0, 0, 0]]\<rparr> = tiny_input m c"
    by (simp add: tiny_input_def)
  have emb: "word_embeddings tiny_backbone = (\<lambda>t. t)" by (simp add: tiny_backbone_def)
  have kwl: "tiny_kwargs ''labels'' = Some [7]" "tiny_kwargs ''output_hidden_states'' = None"
    by (simp_all add: tiny_kwargs_def)
  show ?thesis
    using assms
    apply (simp add: segment_step_def rank3_def detach_cond_def non_empty_mask_def tiny_empty
        tiny_fields)
    apply (simp add: mask_select_def bind_err_def lookup_labels_def kwl emb)
    apply (simp add: assign_slices_def broadcast_to_def assign_slice_def bind_err_def py_slice_def
        slice_bound_def)
    apply (simp add: call_model_def kwl inp tiny_forward)
    apply (simp add: mask_assign_def mask_select_def bind_err_def broadcast_to_def tiny_output_def)
    done
qed

lemma tiny_run: "run_call tiny_cfg tiny_backbone tiny_kwargs tiny_batch = Inr tiny_final"
  unfolding run_call_def tiny_segmentation
  by (simp add: bind_err_def len_segmented_def zip_segmented_def tiny_segmented_def
      init_state_def set_memory_def tiny_mem tiny_step_empty tiny_step_content rank3_def
      tiny_final_def tiny_emb)

lemma blank_run:
  "run_call tiny_cfg tiny_backbone tiny_kwargs blank_batch
   = Inr \<lparr>memory = Mem3 [[1000]], outputs = [], detach_log = [True, True], forward_log = []\<rparr>"
  unfolding run_call_def blank_segmentation
  by (simp add: bind_err_def len_segmented_def zip_segmented_def blank_segmented_def
      init_state_def set_memory_def tiny_mem tiny_step_empty rank3_def tiny_emb)


subsection \<open>Error propagation\<close>

lemma bind_err_Inr [simp]: "bind_err (Inr x) f = f x"
  by (simp add: bind_err_def)

lemma bind_err_Inl [simp]: "bind_err (Inl e) f = Inl e"
  by (simp add: bind_err_def)

lemma bind_err_eq_Inr:
  "bind_err m f = Inr y \<longleftrightarrow> (\<exists>x. m = Inr x \<and> f x = Inr y)"
  by (cases m) simp_all

lemma sequence_err_all_Inr:
  "sequence_err (map (\<lambda>x. Inr (f x)) xs) = Inr (map f xs)"
  by (induction xs) simp_all

lemma sequence_err_cong_Inr:
  "(\<And>x. x \<in> set xs \<Longrightarrow> g x = Inr (f x)) \<Longrightarrow> sequence_err (map g xs) = Inr (map f xs)"
  by (induction xs) simp_all


subsection \<open>Scattering and selecting by a mask\<close>

lemma length_scatter [simp]: "length (scatter mem msk vs) = length mem"
  by (induction mem msk vs rule: scatter.induct) (auto split: list.splits)

lemma scatter_unselected:
  "j < length mem \<Longrightarrow> \<not> (j < length msk \<and> msk ! j) \<Longrightarrow> scatter mem msk vs ! j = mem ! j"
proof (induction mem arbitrary: msk vs j)
  case Nil
  then show ?case by simp
next
  case (Cons m ms)
  show ?case
  proof (cases msk)
    case Nil
    then show ?thesis by simp
  next
    case (Cons b bs)
    show ?thesis
    proof (cases j)
      case 0
      with Cons.prems Cons show ?thesis by (cases vs) auto
    next
      case (Suc j')
      with Cons.prems Cons have "j' < length ms" "\<not> (j' < length bs \<and> bs ! j')" by auto
      then have "scatter ms bs ws ! j' = ms ! j'" for ws by (rule Cons.IH)
      with Suc Cons show ?thesis by (cases vs) auto
    qed
  qed
qed

lemma rank_in_0 [simp]: "rank_in msk 0 = 0"
  by (simp add: rank_in_def)

lemma rank_in_Suc [simp]: "rank_in (b # bs) (Suc j) = (if b then Suc (rank_in bs j) else rank_in bs j)"
  by (simp add: rank_in_def)


lemma mask_select_Inr:
  "mask_select xs msk = Inr ys \<longleftrightarrow>
     length msk = length xs \<and> ys = map fst (filter snd (zip xs msk))"
  by (auto simp: mask_select_def)




subsection \<open>One iteration of the loop, inverted\<close>

lemma no_selected_iff:
  "length (filter (\<lambda>b. b) (non_empty_mask cfg ids)) = 0
   \<longleftrightarrow> (\<forall>r \<in> set ids. r = empty_segment cfg)"
  by (auto simp: non_empty_mask_def filter_empty_conv)

lemma segment_step_skip:
  assumes "drop_empty_segments cfg" and "\<forall>r \<in> set ids. r = empty_segment cfg"
  shows "segment_step cfg bb kwargs len_seg i (ids, am, tt) st
         = Inr (st\<lparr>memory := Mem3 (rank3 (length ids) (memory st)),
                   detach_log := detach_log st @ [detach_cond cfg len_seg i]\<rparr>)"
  using assms no_selected_iff [of cfg ids]
  by (simp add: segment_step_def Let_def)

lemma call_model_Inr:
  "call_model bb kws embeds am tt = Inr (inp, out) \<longleftrightarrow>
     kws ''output_hidden_states'' = None
     \<and> inp = \<lparr>kw = kws, inputs_embeds = embeds, attention_mask = am, token_type_ids = tt\<rparr>
     \<and> out = forward bb inp"
  by (auto simp: call_model_def Let_def)

lemma segment_step_drop_exec:
  assumes step: "segment_step cfg bb kwargs len_seg i (ids, am, tt) st = Inr st'"
    and drop: "drop_empty_segments cfg"
    and exec: "\<exists>r \<in> set ids. r \<noteq> empty_segment cfg"
  obtains ids' am' tt' labels labels' mem' embeds inp out mem_new where
    "mask_select ids (non_empty_mask cfg ids) = Inr ids'"
    "mask_select am (non_empty_mask cfg ids) = Inr am'"
    "mask_select tt (non_empty_mask cfg ids) = Inr tt'"
    "kwargs ''labels'' = Some labels"
    "mask_select labels (non_empty_mask cfg ids) = Inr labels'"
    "mask_select (rank3 (length ids) (memory st)) (non_empty_mask cfg ids) = Inr mem'"
    "assign_slices (num_mem_tokens cfg) (map (map (word_embeddings bb)) ids') mem' = Inr embeds"
    "inp = \<lparr>kw = kwargs(''labels'' \<mapsto> labels'), inputs_embeds = embeds,
            attention_mask = am', token_type_ids = tt'\<rparr>"
    "out = forward bb inp"
    "mask_assign (rank3 (length ids) (memory st)) (non_empty_mask cfg ids)
       (map (take (num_mem_tokens cfg)) (hidden_last out)) = Inr mem_new"
    "st' = st\<lparr>memory := Mem3 mem_new,
              detach_log := detach_log st @ [detach_cond cfg len_seg i],
              outputs := outputs st @ [out],
              forward_log := forward_log st @ [inp]\<rparr>"
proof -
  have ne: "length (filter (\<lambda>b. b) (non_empty_mask cfg ids)) \<noteq> 0"
    using exec no_selected_iff [of cfg ids] by blast
  from step drop ne obtain ids' am' tt' labels labels' mem' embeds io mem_new where
    a: "mask_select ids (non_empty_mask cfg ids) = Inr ids'"
      "mask_select am (non_empty_mask cfg ids) = Inr am'"
      "mask_select tt (non_empty_mask cfg ids) = Inr tt'"
      "lookup_labels kwargs = Inr labels"
      "mask_select labels (non_empty_mask cfg ids) = Inr labels'"
      "mask_select (rank3 (length ids) (memory st)) (non_empty_mask cfg ids) = Inr mem'"
      "assign_slices (num_mem_tokens cfg) (map (map (word_embeddings bb)) ids') mem' = Inr embeds"
      "call_model bb (kwargs(''labels'' \<mapsto> labels')) embeds am' tt' = Inr io"
      "mask_assign (rank3 (length ids) (memory st)) (non_empty_mask cfg ids)
         (map (take (num_mem_tokens cfg)) (hidden_last (snd io))) = Inr mem_new"
      "st' = st\<lparr>memory := Mem3 mem_new,
              detach_log := detach_log st @ [detach_cond cfg len_seg i],
              outputs := outputs st @ [snd io],
              forward_log := forward_log st @ [fst io]\<rparr>"
    unfolding segment_step_def
    by (simp add: Let_def bind_err_eq_Inr split_beta) (auto simp: split_paired_all)
  from a(4) have l: "kwargs ''labels'' = Some labels"
    by (simp add: lookup_labels_def split: option.splits)
  obtain inp out where io: "io = (inp, out)" by (cases io)
  from a(8) [unfolded io call_model_Inr]
  have "inp = \<lparr>kw = kwargs(''labels'' \<mapsto> labels'), inputs_embeds = embeds,
            attention_mask = am', token_type_ids = tt'\<rparr>" "out = forward bb inp"
    by simp_all
  with a l io that show ?thesis by simp
qed

lemma segment_step_plain:
  assumes step: "segment_step cfg bb kwargs len_seg i (ids, am, tt) st = Inr st'"
    and drop: "\<not> drop_empty_segments cfg"
  obtains embeds inp out where
    "assign_slices (num_mem_tokens cfg) (map (map (word_embeddings bb)) ids)
       (rank3 (length ids) (memory st)) = Inr embeds"
    "inp = \<lparr>kw = kwargs, inputs_embeds = embeds, attention_mask = am, token_type_ids = tt\<rparr>"
    "out = forward bb inp"
    "st' = st\<lparr>memory := Mem3 (map (take (num_mem_tokens cfg)) (hidden_last out)),
              detach_log := detach_log st @ [detach_cond cfg len_seg i],
              outputs := outputs st @ [out],
              forward_log := forward_log st @ [inp]\<rparr>"
proof -
  from step drop obtain embeds io where
    a: "assign_slices (num_mem_tokens cfg) (map (map (word_embeddings bb)) ids)
         (rank3 (length ids) (memory st)) = Inr embeds"
      "call_model bb kwargs embeds am tt = Inr io"
      "st' = st\<lparr>memory := Mem3 (map (take (num_mem_tokens cfg)) (hidden_last (snd io))),
              detach_log := detach_log st @ [detach_cond cfg len_seg i],
              outputs := outputs st @ [snd io],
              forward_log := forward_log st @ [fst io]\<rparr>"
    unfolding segment_step_def
    by (simp add: Let_def bind_err_eq_Inr split_beta) (auto simp: split_paired_all)
  obtain inp out where io: "io = (inp, out)" by (cases io)
  from a(2) [unfolded io call_model_Inr]
  have "inp = \<lparr>kw = kwargs, inputs_embeds = embeds, attention_mask = am, token_type_ids = tt\<rparr>"
    "out = forward bb inp"
    by simp_all
  with a io that show ?thesis by simp
qed

subsection \<open>The batch shape of a segmentation\<close>






subsection \<open>Assignments on well-shaped tensors\<close>








lemma mask_assign_Inr_unselected:
  assumes "mask_assign mem msk vals = Inr mem'" and "j < length mem" and "\<not> msk ! j"
  shows "mem' ! j = mem ! j" and "length mem' = length mem"
proof -
  from assms(1) obtain ws where "mem' = scatter mem msk ws"
    by (auto simp: mask_assign_def bind_err_eq_Inr)
  then show "mem' ! j = mem ! j" "length mem' = length mem"
    using assms(2,3) by (simp_all add: scatter_unselected)
qed

subsection \<open>Memory through one executed step\<close>






subsection \<open>Invariants of the loop over the segments\<close>




lemma run_segments_all_empty:
  assumes "drop_empty_segments cfg"
    and "\<forall>seg \<in> set segs. \<forall>r \<in> set (fst seg). r = empty_segment cfg"
  shows "\<exists>st'. run_segments cfg bb kwargs len_seg i segs st = Inr st'
           \<and> outputs st' = outputs st \<and> forward_log st' = forward_log st"
  using assms(2)
proof (induction segs arbitrary: i st)
  case Nil
  then show ?case by simp
next
  case (Cons seg segs)
  obtain ids am tt where seg: "seg = (ids, am, tt)" by (cases seg)
  let ?st1 = "st\<lparr>memory := Mem3 (rank3 (length ids) (memory st)),
                   detach_log := detach_log st @ [detach_cond cfg len_seg i]\<rparr>"
  have "segment_step cfg bb kwargs len_seg i (ids, am, tt) st = Inr ?st1"
    using Cons.prems assms(1) by (intro segment_step_skip) (simp_all add: seg)
  moreover obtain st' where "run_segments cfg bb kwargs len_seg (i + 1) segs ?st1 = Inr st'"
      "outputs st' = outputs ?st1" "forward_log st' = forward_log ?st1"
    using Cons.IH [of "i + 1" ?st1] Cons.prems by auto
  ultimately show ?case by (simp add: seg)
qed




subsection \<open>Totality of the segmenter, and the record of detaching\<close>

text \<open>Segmentation returns on every rectangular, non-empty batch of positive width when the
  content capacity is positive (and, by \<open>pad_and_segment_Inr\<close>, only then).\<close>

lemma augment_rows_ok:
  "\<forall>r \<in> set rs. row_segments cfg n r \<noteq> [] \<Longrightarrow>
     augment_rows cfg n rs = Inr (map (\<lambda>r. concat (row_segments cfg n r)) rs)"
  by (induction rs) (simp_all add: torch_cat_def)

lemma pad_and_segment_returns:
  assumes k: "0 < seg_capacity cfg" and wf: "wf_batch b"
    and ne: "rows b \<noteq> []" and w: "0 < seq_len b"
  shows "\<exists>sg. pad_and_segment cfg b = Inr sg"
proof -
  define n where "n = - ((- int (seq_len b)) div seg_capacity cfg)"
  have n: "n_segments_of cfg b = Inr n"
    using k by (simp add: n_segments_of_def ceil_div_def n_def)
  have "- int (seq_len b) < 0" using w by simp
  then have "(- int (seq_len b)) div seg_capacity cfg < 0"
    using k by (simp only: pos_imp_zdiv_neg_iff)
  then have npos: "0 < n" by (simp add: n_def)
  have cnt: "length (row_segments cfg n r) = nat n" if "r \<in> set (rows b)" for r
    using that wf k by (intro row_segments_length) (auto simp: wf_batch_def n_def)
  then have "\<forall>r \<in> set (rows b). row_segments cfg n r \<noteq> []"
    using npos by (metis length_0_conv nat_0_iff not_less)
  then have a: "augment_rows cfg n (rows b)
      = Inr (map (\<lambda>r. concat (row_segments cfg n r)) (rows b))"
    by (rule augment_rows_ok)
  let ?aug = "map (\<lambda>r. concat (row_segments cfg n r)) (rows b)"
  have width: "length (concat (row_segments cfg n r)) = nat n * nat (input_size cfg)"
    if "r \<in> set (rows b)" for r
  proof -
    have "\<forall>seg \<in> set (row_segments cfg n r). length seg = nat (input_size cfg)"
      using row_segments_elem_length [OF k] by (metis nat_int)
    then have "length (concat (row_segments cfg n r))
        = length (row_segments cfg n r) * nat (input_size cfg)"
      by (rule length_concat_uniform)
    then show ?thesis using cnt [OF that] by simp
  qed
  obtain r0 rs where rows: "rows b = r0 # rs" using ne by (cases "rows b") auto
  have s: "torch_stack ?aug = Inr ?aug"
    using width by (simp add: torch_stack_def rows)
  have "\<exists>x. torch_chunk t n = Inr x" for t :: "int list list"
    using npos by (simp add: torch_chunk_def Let_def)
  then obtain segs ams tts where
    "torch_chunk ?aug n = Inr segs"
    "torch_chunk (map (map (\<lambda>x. if x = pad_token_id cfg then 0 else (1::int))) ?aug) n = Inr ams"
    "torch_chunk (map (map (\<lambda>x. (0::int)))
       (map (map (\<lambda>x. if x = pad_token_id cfg then 0 else (1::int))) ?aug)) n = Inr tts"
    by metis
  then show ?thesis
    using n a s by (simp add: pad_and_segment_def Let_def)
qed

text \<open>What the loop records about detaching: at segment \<open>i\<close> it detaches exactly when the
  depth is not negative and less than \<^verbatim>\<open>len(segmented) - i\<close>; with depth \<open>- 1\<close>, never.\<close>

lemma segment_step_detach_log:
  assumes "segment_step cfg bb kwargs len_seg i seg st = Inr st'"
  shows "detach_log st' = detach_log st @ [detach_cond cfg len_seg i]"
proof -
  obtain ids am tt where seg: "seg = (ids, am, tt)" by (cases seg)
  show ?thesis
  proof (cases "drop_empty_segments cfg")
    case False
    from assms [unfolded seg] False show ?thesis
      by (rule segment_step_plain) simp
  next
    case True
    show ?thesis
    proof (cases "\<forall>r \<in> set ids. r = empty_segment cfg")
      case all: True
      then show ?thesis
        using assms segment_step_skip [OF True all, of bb kwargs len_seg i am tt st]
        by (auto simp: seg)
    next
      case False
      then have "\<exists>r \<in> set ids. r \<noteq> empty_segment cfg" by blast
      with assms [unfolded seg] True show ?thesis
        by (rule segment_step_drop_exec) simp
    qed
  qed
qed

lemma run_segments_detach_log:
  "run_segments cfg bb kwargs len_seg i segs st = Inr st' \<Longrightarrow>
     detach_log st'
     = detach_log st @ map (\<lambda>k. detach_cond cfg len_seg (i + int k)) [0 ..< length segs]"
proof (induction segs arbitrary: i st)
  case Nil
  then show ?case by simp
next
  case (Cons seg segs)
  from Cons.prems obtain st1 where
    s1: "segment_step cfg bb kwargs len_seg i seg st = Inr st1" and
    r: "run_segments cfg bb kwargs len_seg (i + 1) segs st1 = Inr st'"
    by (auto simp: bind_err_eq_Inr)
  have "map (\<lambda>k. detach_cond cfg len_seg (i + int k)) [0 ..< Suc (length segs)]
      = detach_cond cfg len_seg i
        # map (\<lambda>k. detach_cond cfg len_seg (i + 1 + int k)) [0 ..< length segs]"
    by (simp add: upt_conv_Cons map_Suc_upt [symmetric] add.assoc del: upt_Suc)
  then show ?case
    using Cons.IH [OF r] segment_step_detach_log [OF s1] by simp
qed

lemma detach_trace_code:
  assumes "detach_trace cfg bb kwargs b = Inr tr"
  shows "\<exists>sg. pad_and_segment cfg b = Inr sg
           \<and> tr = map (\<lambda>k. - 1 < bptt_depth cfg \<and> bptt_depth cfg < 3 - int k)
                    [0 ..< length (zip_segmented sg)]"
proof -
  from assms obtain sg st where
    sg: "pad_and_segment cfg b = Inr sg" and
    r: "run_segments cfg bb kwargs (len_segmented sg) 0 (zip_segmented sg) (init_state cfg bb)
          = Inr st" and
    l: "tr = detach_log st"
    by (auto simp: detach_trace_def run_call_def bind_err_eq_Inr)
  show ?thesis
    using run_segments_detach_log [OF r] sg l
    by (simp add: init_state_def detach_cond_def len_segmented_def)
qed

lemma no_detach_when_unlimited:
  assumes "detach_trace cfg bb kwargs b = Inr tr" and "bptt_depth cfg = - 1"
  shows "True \<notin> set tr"
  using detach_trace_code [OF assms(1)] assms(2) by auto

section \<open>The claims about the forward call\<close>

text \<open>
  Claim C1. The claim asks for the memory entering segment \<open>i\<close> to be detached exactly
  when \<open>n_segments - i > d\<close>. The code compares \<^verbatim>\<open>len(segmented) - seg_num\<close> with the
  depth, and \<^verbatim>\<open>segmented\<close> is the 3-tuple returned by \<^verbatim>\<open>pad_and_segment\<close>, so it
  detaches exactly when \<open>3 - i > d\<close>. With depth 1 and five segments the claim calls for
  detaching at segments 0 to 3; the code detaches at segments 0 and 1 only. What the code
  records for every call is \<open>detach_trace_code\<close>; with depth \<open>- 1\<close> it never detaches
  (\<open>no_detach_when_unlimited\<close>), as the claim says.
\<close>

theorem bptt_detach_at_failing_input:
  "bptt_depth tiny_cfg = 1
   \<and> segments_produced tiny_cfg tiny_batch = Inr 5
   \<and> detach_trace tiny_cfg tiny_backbone tiny_kwargs tiny_batch
       = Inr [True, True, False, False, False]"
  by (simp add: segments_produced_def detach_trace_def tiny_segmentation tiny_run bind_err_def
      tiny_fields tiny_segmented_def tiny_final_def)


text \<open>
  Claim C2. The claim puts the aggregated loss on the first output. The code assigns it to
  \<^verbatim>\<open>out\<close>, the output of the last executed step: with three executed steps of losses
  1, 2 and 3 the returned losses are 1, 2 and 6.
\<close>

theorem sum_loss_first_output_counterexample:
  "sum_loss tiny_cfg
   \<and> loss_fields (forward_call tiny_cfg tiny_backbone tiny_kwargs tiny_batch)
       = Inr [Some 1, Some 2, Some 6]"
  by (simp add: loss_fields_def forward_call_def tiny_run tiny_fields
      tiny_final_def aggregate_loss_def tiny_output_def)

text \<open>
  Claim C2, as amended. When the loop has executed at least one step and every output
  carries a loss, a call with \<open>sum_loss\<close> returns the same outputs, with the loss of the
  last one replaced by the sum of the losses of all executed steps.
\<close>

theorem sum_loss_on_last_output:
  assumes "run_call cfg bb kwargs b = Inr st" and "sum_loss cfg"
    and "outputs st \<noteq> []" and "list_all (\<lambda>out. loss out \<noteq> None) (outputs st)"
  shows "forward_call cfg bb kwargs b
         = Inr (butlast (outputs st)
                @ [(last (outputs st))
                     \<lparr>loss := Some (sum_list (map (\<lambda>out. the (loss out)) (outputs st)))\<rparr>])"
proof -
  have "sequence_err (map (\<lambda>out. case loss out of None \<Rightarrow> Inl KeyError | Some l \<Rightarrow> Inr l)
          (outputs st))
        = Inr (map (\<lambda>out. the (loss out)) (outputs st))"
    using assms(4) by (intro sequence_err_cong_Inr) (auto simp: list_all_iff)
  then show ?thesis
    using assms(1-3) by (simp add: forward_call_def aggregate_loss_def)
qed

theorem sum_loss_on_last_output_witness:
  "run_call tiny_cfg tiny_backbone tiny_kwargs tiny_batch = Inr tiny_final
   \<and> sum_loss tiny_cfg \<and> outputs tiny_final \<noteq> []
   \<and> list_all (\<lambda>out. loss out \<noteq> None) (outputs tiny_final)
   \<and> forward_call tiny_cfg tiny_backbone tiny_kwargs tiny_batch
       = Inr [tiny_output 1000 1, tiny_output 102 2, (tiny_output 103 3)\<lparr>loss := Some 6\<rparr>]"
proof -
  have h3: "outputs tiny_final \<noteq> []" by (simp add: tiny_final_def)
  have h4: "list_all (\<lambda>out. loss out \<noteq> None) (outputs tiny_final)"
    by (simp add: tiny_final_def tiny_output_def)
  from sum_loss_on_last_output [OF tiny_run tiny_fields(2) h3 h4]
  show ?thesis using tiny_run tiny_fields(2) h3 h4
    by (simp add: tiny_final_def tiny_output_def)
qed

lemma run_segments_append:
  "run_segments cfg bb kwargs len_seg i (pre @ seg # post) st
   = bind_err (run_segments cfg bb kwargs len_seg i pre st) (\<lambda>st1.
       bind_err (segment_step cfg bb kwargs len_seg (i + int (length pre)) seg st1)
         (run_segments cfg bb kwargs len_seg (i + int (length pre) + 1) post))"
proof (induction pre arbitrary: i st)
  case Nil
  then show ?case by simp
next
  case (Cons p pre)
  show ?case
  proof (cases "segment_step cfg bb kwargs len_seg i p st")
    case (Inl e)
    then show ?thesis by simp
  next
    case (Inr st1)
    then show ?thesis using Cons.IH [of "i + 1" st1] by (simp add: add.assoc)
  qed
qed
















text \<open>With dropping enabled, an example whose segment is the empty sentinel keeps its memory
  through the step, whatever the backbone returns.\<close>

lemma empty_example_keeps_memory:
  assumes step: "segment_step cfg bb kwargs len_seg i (ids, am, tt) st = Inr st'"
    and drop: "drop_empty_segments cfg"
    and j: "j < length ids" and e: "ids ! j = empty_segment cfg"
  shows "rank3 (length ids) (memory st') ! j = rank3 (length ids) (memory st) ! j"
proof (cases "\<forall>r \<in> set ids. r = empty_segment cfg")
  case True
  then show ?thesis
    using step segment_step_skip [OF drop True, of bb kwargs len_seg i am tt st]
    by (auto simp: rank3_def)
next
  case False
  then have ex: "\<exists>r \<in> set ids. r \<noteq> empty_segment cfg" by blast
  let ?msk = "non_empty_mask cfg ids"
  let ?mem = "rank3 (length ids) (memory st)"
  from step drop ex obtain mem' out inp mem_new where
    a: "mask_select ?mem ?msk = Inr mem'"
      "mask_assign ?mem ?msk (map (take (num_mem_tokens cfg)) (hidden_last out)) = Inr mem_new"
      "st' = st\<lparr>memory := Mem3 mem_new,
              detach_log := detach_log st @ [detach_cond cfg len_seg i],
              outputs := outputs st @ [out],
              forward_log := forward_log st @ [inp]\<rparr>"
    by (rule segment_step_drop_exec)
  have "length ?mem = length ids"
    using a(1) by (simp add: mask_select_Inr non_empty_mask_def)
  moreover have "\<not> ?msk ! j" using j e by (simp add: non_empty_mask_def)
  ultimately have "mem_new ! j = ?mem ! j"
    using mask_assign_Inr_unselected(1) [OF a(2), of j] j by simp
  then show ?thesis by (simp add: a(3) rank3_def)
qed

text \<open>When every example is empty at every step, the loop calls the model never and
  appends nothing; the call then returns the empty list, unless \<open>sum_loss\<close> is set, in
  which case \<^verbatim>\<open>torch.stack\<close> of the empty list of losses raises.\<close>

lemma all_empty_call:
  assumes drop: "drop_empty_segments cfg" and seg: "pad_and_segment cfg b = Inr sg"
    and empty: "\<forall>s \<in> set (zip_segmented sg). \<forall>r \<in> set (fst s). r = empty_segment cfg"
  shows "\<exists>st. run_call cfg bb kwargs b = Inr st \<and> outputs st = [] \<and> forward_log st = []"
    and "forward_call cfg bb kwargs b = (if sum_loss cfg then Inl RuntimeError else Inr [])"
proof -
  from run_segments_all_empty [OF drop empty,
      of bb kwargs "len_segmented sg" 0 "init_state cfg bb"]
  obtain st where st: "run_segments cfg bb kwargs (len_segmented sg) 0 (zip_segmented sg)
        (init_state cfg bb) = Inr st"
      "outputs st = outputs (init_state cfg bb)" "forward_log st = forward_log (init_state cfg bb)"
    by (elim exE conjE)
  then have r: "run_call cfg bb kwargs b = Inr st" "outputs st = []" "forward_log st = []"
    by (simp_all add: run_call_def seg init_state_def)
  then show "\<exists>st. run_call cfg bb kwargs b = Inr st \<and> outputs st = [] \<and> forward_log st = []"
    by blast
  show "forward_call cfg bb kwargs b = (if sum_loss cfg then Inl RuntimeError else Inr [])"
    by (simp add: forward_call_def r aggregate_loss_def)
qed

text \<open>
  Claim C6. The first two parts of the claim hold (\<open>empty_example_keeps_memory\<close>,
  \<open>segment_step_skip\<close>), and a batch that is empty at every step makes the loop produce
  no output (\<open>all_empty_call\<close>). The claim then has the call produce zero segment
  outputs; with \<open>sum_loss\<close> set the call does not return the empty list but raises,
  because the losses of no outputs are stacked. The row \<open>[101, 102]\<close> has no content, both
  of its segments are the empty sentinel, and the call fails.
\<close>

theorem all_empty_sum_loss_failing_input:
  "drop_empty_segments tiny_cfg \<and> sum_loss tiny_cfg
   \<and> pad_and_segment tiny_cfg blank_batch = Inr blank_segmented
   \<and> seg_input_ids blank_segmented = [[empty_segment tiny_cfg], [empty_segment tiny_cfg]]
   \<and> forward_call tiny_cfg tiny_backbone tiny_kwargs blank_batch = Inl RuntimeError"
  by (simp add: forward_call_def blank_run tiny_fields blank_segmentation
      blank_segmented_def tiny_empty aggregate_loss_def)

end
